theory Spec2Isabelle
  imports Complex_Main "HOL-Library.AList" "HOL-Library.Stream"
begin

section \<open>The Ising spin model of spin.py\<close>

text \<open>
  The development embeds the classes \<open>Node\<close> and \<open>Model\<close> and the functions
  \<open>update\<close>, \<open>modelE\<close> and \<open>modelSpin\<close> of \<open>src/spin.py\<close>.

  \<^item> Python integers are \<open>int\<close>. The temperature is a float, as \<open>main\<close> reads it and as
    the default of \<open>update\<close> is, and so are the uniform draws. The
    type of floats and the operations of the interpreter and of the module \<open>math\<close> on
    them are a parameter of the model (a record of operations), so that every
    property holds for whatever these operations compute: rounding, underflow,
    infinities and their errors included.
  \<^item> The dictionary \<open>nodes\<close> keeps its insertion order (which \<open>modelSpin\<close> iterates), so
    it is an association list: a lookup is \<open>map_of\<close>, a store is \<open>AList.update\<close>
    (replace in place, or append a new key), a missing key is \<open>KeyError\<close>.
  \<^item> A \<open>Node\<close> object is mutated in place through the dictionary; the model stores the
    changed record back under its key.
  \<^item> The module \<open>random\<close> is an explicit source that is threaded through the calls.
\<close>

subsection \<open>Errors and the random source\<close>

datatype py_error = KeyError | ZeroDivisionError | ValueError | OverflowError

text \<open>
  The float operations that \<open>update\<close> uses, on a type \<open>'f\<close> of floats:
  \<^item> \<open>int_to_float\<close>: the conversion that \<open>2*E/T\<close> applies to the integer \<open>2*E\<close>;
    \<open>None\<close> is the \<open>OverflowError\<close> of an integer too large for a float;
  \<^item> \<open>float_is_zero\<close>: the test \<open>T == 0.0\<close> of the float division;
  \<^item> \<open>float_div\<close>: the quotient of two floats with a divisor that is not zero (it does
    not raise: it may round, or give an infinity);
  \<^item> \<open>math_exp\<close>: \<open>math.exp\<close>; \<open>None\<close> is its \<open>OverflowError\<close>;
  \<^item> \<open>float_less\<close>: the comparison \<open><\<close> of two floats.
\<close>

record 'f fpu =
  int_to_float :: "int \<Rightarrow> 'f option"
  float_is_zero :: "'f \<Rightarrow> bool"
  float_div :: "'f \<Rightarrow> 'f \<Rightarrow> 'f"
  math_exp :: "'f \<Rightarrow> 'f option"
  float_less :: "'f \<Rightarrow> 'f \<Rightarrow> bool"

text \<open>
  The expression \<open>math.exp(2*E/T)\<close>, in the order of the interpreter: the integer \<open>2*E\<close>
  is converted (or \<open>OverflowError\<close>), then a zero divisor raises \<open>ZeroDivisionError\<close>,
  then the quotient is taken and \<open>math.exp\<close> applied (or \<open>OverflowError\<close>).
\<close>

definition boltzmann_factor :: "'f fpu \<Rightarrow> int \<Rightarrow> 'f \<Rightarrow> py_error + 'f" where
  "boltzmann_factor fp E T =
     (case int_to_float fp (2 * E) of
        None \<Rightarrow> Inl OverflowError
      | Some a \<Rightarrow>
          if float_is_zero fp T then Inl ZeroDivisionError
          else (case math_exp fp (float_div fp a T) of
                  None \<Rightarrow> Inl OverflowError
                | Some y \<Rightarrow> Inr y))"

text \<open>
  The source of randomness: the raw integers that \<open>random.choice\<close> and
  \<open>random.randint\<close> reduce into their range, and the values of \<open>random.random()\<close>
  (which lie in \<open>[0,1)\<close>). Each call consumes one element.
\<close>

record 'f source =
  ints :: "nat stream"
  floats :: "'f stream"

text \<open>\<open>random.choice\<close> on a pair: either component.\<close>

definition random_choice :: "'a \<times> 'a \<Rightarrow> 'f source \<Rightarrow> 'a \<times> 'f source" where
  "random_choice p g =
     (if even (shd (ints g)) then fst p else snd p, g\<lparr>ints := stl (ints g)\<rparr>)"

text \<open>\<open>random.randint(a, b)\<close>: some \<open>n\<close> with \<open>a \<le> n \<le> b\<close>; an empty range raises.\<close>

definition random_randint :: "int \<Rightarrow> int \<Rightarrow> 'f source \<Rightarrow> py_error + int \<times> 'f source" where
  "random_randint a b g =
     (if b < a then Inl ValueError
      else Inr (a + int (shd (ints g) mod nat (b - a + 1)), g\<lparr>ints := stl (ints g)\<rparr>))"

definition random_random :: "'f source \<Rightarrow> 'f \<times> 'f source" where
  "random_random g = (shd (floats g), g\<lparr>floats := stl (floats g)\<rparr>)"

subsection \<open>class Node\<close>

record Node =
  spin :: int
  h :: int
  Jn :: "(int \<times> int) list"

type_synonym table = "(int \<times> Node) list"

definition Node_init :: "'f source \<Rightarrow> Node \<times> 'f source" where
  "Node_init g =
     (case random_choice (- 1, 1) g of (s, g') \<Rightarrow> (\<lparr>spin = s, h = 0, Jn = []\<rparr>, g'))"

definition seth :: "int \<Rightarrow> Node \<Rightarrow> Node" where
  "seth v self = self\<lparr>h := v\<rparr>"

definition geth :: "Node \<Rightarrow> int" where
  "geth self = h self"

definition setJn :: "int \<times> int \<Rightarrow> Node \<Rightarrow> Node" where
  "setJn p self = self\<lparr>Jn := Jn self @ [p]\<rparr>"

definition getJn :: "Node \<Rightarrow> (int \<times> int) list" where
  "getJn self = Jn self"

definition switchSpin :: "Node \<Rightarrow> Node" where
  "switchSpin self = self\<lparr>spin := - spin self\<rparr>"

definition getSpin :: "Node \<Rightarrow> int" where
  "getSpin self = spin self"

text \<open>\<open>nodes[k]\<close>: the value stored under the key, or \<open>KeyError\<close>.\<close>

definition lookup :: "table \<Rightarrow> int \<Rightarrow> py_error + Node" where
  "lookup tbl k = (case map_of tbl k of None \<Rightarrow> Inl KeyError | Some nd \<Rightarrow> Inr nd)"

text \<open>The loop of \<open>getE\<close> over \<open>self.getJn()\<close>, with the accumulator \<open>E\<close>.\<close>

fun getE_loop :: "Node \<Rightarrow> table \<Rightarrow> (int \<times> int) list \<Rightarrow> int \<Rightarrow> py_error + int" where
  "getE_loop self tbl [] E = Inr E"
| "getE_loop self tbl (i # rest) E =
     (case lookup tbl (fst i) of
        Inl e \<Rightarrow> Inl e
      | Inr nb \<Rightarrow>
          getE_loop self tbl rest
            (E + ((geth self * getSpin self) + (snd i * getSpin self * getSpin nb))))"

definition getE :: "Node \<Rightarrow> table \<Rightarrow> py_error + int" where
  "getE self tbl =
     (case getE_loop self tbl (getJn self) 0 of Inl e \<Rightarrow> Inl e | Inr E \<Rightarrow> Inr (- E))"

subsection \<open>class Model\<close>

record Model =
  nodes :: table
  Js :: "(int \<times> int \<times> int) list"
  hs :: "(int \<times> int) list"

text \<open>\<open>for n in range(node_qty): self.nodes[n] = Node()\<close>, from index \<open>n\<close> for \<open>k\<close> rounds.\<close>

fun init_nodes :: "nat \<Rightarrow> int \<Rightarrow> table \<Rightarrow> 'f source \<Rightarrow> table \<times> 'f source" where
  "init_nodes 0 n tbl g = (tbl, g)"
| "init_nodes (Suc k) n tbl g =
     (case Node_init g of (nd, g') \<Rightarrow> init_nodes k (n + 1) (AList.update n nd tbl) g')"

text \<open>
  The body of \<open>for w in weights\<close>: a coupling for distinct endpoints, a field weight
  otherwise.
\<close>

definition add_weight :: "int \<times> int \<times> int \<Rightarrow> Model \<Rightarrow> py_error + Model" where
  "add_weight w m =
     (case w of
        (a, b, c) \<Rightarrow>
          if a \<noteq> b then
            (case lookup (nodes m) a of
               Inl e \<Rightarrow> Inl e
             | Inr na \<Rightarrow>
                 (case lookup (AList.update a (setJn (b, c) na) (nodes m)) b of
                    Inl e \<Rightarrow> Inl e
                  | Inr nb \<Rightarrow>
                      Inr (m\<lparr>nodes := AList.update b (setJn (a, c) nb)
                                       (AList.update a (setJn (b, c) na) (nodes m)),
                            Js := Js m @ [(a, b, c)]\<rparr>)))
          else if a = b then
            (case lookup (nodes m) a of
               Inl e \<Rightarrow> Inl e
             | Inr na \<Rightarrow>
                 Inr (m\<lparr>nodes := AList.update a (seth c na) (nodes m),
                       hs := hs m @ [(a, c)]\<rparr>))
          else Inr m)"

fun add_weights :: "(int \<times> int \<times> int) list \<Rightarrow> Model \<Rightarrow> py_error + Model" where
  "add_weights [] m = Inr m"
| "add_weights (w # ws) m =
     (case add_weight w m of Inl e \<Rightarrow> Inl e | Inr m' \<Rightarrow> add_weights ws m')"

definition Model_init :: "int \<Rightarrow> (int \<times> int \<times> int) list \<Rightarrow> 'f source \<Rightarrow> py_error + Model \<times> 'f source" where
  "Model_init node_qty weights g =
     (case init_nodes (nat node_qty) 0 [] g of
        (tbl, g') \<Rightarrow>
          (case add_weights weights \<lparr>nodes = tbl, Js = [], hs = []\<rparr> of
             Inl e \<Rightarrow> Inl e
           | Inr m \<Rightarrow> Inr (m, g')))"

definition getNodes :: "Model \<Rightarrow> table" where
  "getNodes m = nodes m"

definition getJs :: "Model \<Rightarrow> (int \<times> int \<times> int) list" where
  "getJs m = Js m"

definition geths :: "Model \<Rightarrow> (int \<times> int) list" where
  "geths m = hs m"

subsection \<open>update\<close>

text \<open>
  One round of the loop of \<open>update\<close>: sample a node, compute its energy, flip it or not.
  The draw \<open>random.random()\<close> is the left operand of the comparison, so it is made
  before \<open>math.exp(2*E/T)\<close> is evaluated. The parameter \<open>model\<close> of \<open>update\<close> is not used
  by its body and is left out; the float operations \<open>fp\<close> are the parameter added.
\<close>

definition update_step :: "'f fpu \<Rightarrow> table \<Rightarrow> int \<Rightarrow> 'f \<Rightarrow> 'f source \<Rightarrow> py_error + table \<times> 'f source" where
  "update_step fp tbl node_qty T g =
     (case random_randint 0 (node_qty - 1) g of
        Inl e \<Rightarrow> Inl e
      | Inr (n, g1) \<Rightarrow>
          (case lookup tbl n of
             Inl e \<Rightarrow> Inl e
           | Inr nd \<Rightarrow>
               (case getE nd tbl of
                  Inl e \<Rightarrow> Inl e
                | Inr E \<Rightarrow>
                    if E > 0 then Inr (AList.update n (switchSpin nd) tbl, g1)
                    else if E \<le> 0 then
                      (case random_random g1 of
                         (r, g2) \<Rightarrow>
                           (case boltzmann_factor fp E T of
                              Inl e \<Rightarrow> Inl e
                            | Inr y \<Rightarrow>
                                if float_less fp r y
                                then Inr (AList.update n (switchSpin nd) tbl, g2)
                                else Inr (tbl, g2)))
                    else Inr (tbl, g1))))"

fun update_loop :: "'f fpu \<Rightarrow> nat \<Rightarrow> table \<Rightarrow> int \<Rightarrow> 'f \<Rightarrow> 'f source \<Rightarrow> py_error + table \<times> 'f source" where
  "update_loop fp 0 tbl node_qty T g = Inr (tbl, g)"
| "update_loop fp (Suc k) tbl node_qty T g =
     (case update_step fp tbl node_qty T g of
        Inl e \<Rightarrow> Inl e
      | Inr (tbl', g') \<Rightarrow> update_loop fp k tbl' node_qty T g')"

definition update :: "'f fpu \<Rightarrow> table \<Rightarrow> int \<Rightarrow> 'f \<Rightarrow> 'f source \<Rightarrow> py_error + table \<times> 'f source" where
  "update fp tbl node_qty T g = update_loop fp (nat node_qty) tbl node_qty T g"

subsection \<open>modelE and modelSpin\<close>

text \<open>\<open>for i in range(I): update(model, nodes, node_qty, T)\<close>.\<close>

fun modelE_updates :: "'f fpu \<Rightarrow> nat \<Rightarrow> table \<Rightarrow> int \<Rightarrow> 'f \<Rightarrow> 'f source \<Rightarrow> py_error + table \<times> 'f source" where
  "modelE_updates fp 0 tbl node_qty T g = Inr (tbl, g)"
| "modelE_updates fp (Suc k) tbl node_qty T g =
     (case update fp tbl node_qty T g of
        Inl e \<Rightarrow> Inl e
      | Inr (tbl', g') \<Rightarrow> modelE_updates fp k tbl' node_qty T g')"

text \<open>The two accumulating loops over \<open>model.getJs()\<close> and \<open>model.geths()\<close>.\<close>

fun modelE_Js :: "(int \<times> int \<times> int) list \<Rightarrow> table \<Rightarrow> int \<Rightarrow> py_error + int" where
  "modelE_Js [] tbl mE = Inr mE"
| "modelE_Js ((a, b, c) # ws) tbl mE =
     (case lookup tbl a of
        Inl e \<Rightarrow> Inl e
      | Inr na \<Rightarrow>
          (case lookup tbl b of
             Inl e \<Rightarrow> Inl e
           | Inr nb \<Rightarrow> modelE_Js ws tbl (mE + getSpin na * getSpin nb * c)))"

fun modelE_hs :: "(int \<times> int) list \<Rightarrow> table \<Rightarrow> int \<Rightarrow> py_error + int" where
  "modelE_hs [] tbl mE = Inr mE"
| "modelE_hs ((a, c) # ws) tbl mE =
     (case lookup tbl a of
        Inl e \<Rightarrow> Inl e
      | Inr na \<Rightarrow> modelE_hs ws tbl (mE + getSpin na * c))"

text \<open>
  \<open>modelE\<close> returns the energy; the table and the source it leaves behind are returned
  with it, since the caller reads the mutated nodes afterwards.
\<close>

definition modelE :: "'f fpu \<Rightarrow> Model \<Rightarrow> table \<Rightarrow> int \<Rightarrow> int \<Rightarrow> 'f \<Rightarrow> 'f source \<Rightarrow> py_error + int \<times> table \<times> 'f source" where
  "modelE fp m tbl node_qty I T g =
     (case modelE_updates fp (nat I) tbl node_qty T g of
        Inl e \<Rightarrow> Inl e
      | Inr (tbl', g') \<Rightarrow>
          (case modelE_Js (getJs m) tbl' 0 of
             Inl e \<Rightarrow> Inl e
           | Inr mE1 \<Rightarrow>
               (case modelE_hs (geths m) tbl' mE1 of
                  Inl e \<Rightarrow> Inl e
                | Inr mE2 \<Rightarrow> Inr (- mE2, tbl', g'))))"

text \<open>\<open>for e in nodes: state.append(nodes[e].getSpin())\<close>, over the keys in dictionary order.\<close>

fun modelSpin_loop :: "int list \<Rightarrow> table \<Rightarrow> int list \<Rightarrow> py_error + int list" where
  "modelSpin_loop [] tbl state = Inr state"
| "modelSpin_loop (e # es) tbl state =
     (case lookup tbl e of
        Inl err \<Rightarrow> Inl err
      | Inr nd \<Rightarrow> modelSpin_loop es tbl (state @ [getSpin nd]))"

definition modelSpin :: "table \<Rightarrow> py_error + string" where
  "modelSpin tbl =
     (case modelSpin_loop (map fst tbl) tbl [] of
        Inl err \<Rightarrow> Inl err
      | Inr state \<Rightarrow> Inr (map (\<lambda>x. if x > 0 then CHR ''+'' else CHR ''-'') state))"

text \<open>
  The computation of \<open>main\<close> between its prompts and its prints: build the model, run
  \<open>modelE\<close> on its nodes, render the spins.
\<close>

definition main_run :: "'f fpu \<Rightarrow> int \<Rightarrow> (int \<times> int \<times> int) list \<Rightarrow> int \<Rightarrow> 'f \<Rightarrow> 'f source \<Rightarrow> py_error + int \<times> string" where
  "main_run fp node_qty weights I T g =
     (case Model_init node_qty weights g of
        Inl e \<Rightarrow> Inl e
      | Inr (m, g1) \<Rightarrow>
          (case modelE fp m (getNodes m) node_qty I T g1 of
             Inl e \<Rightarrow> Inl e
           | Inr (mE, tbl, g2) \<Rightarrow>
               (case modelSpin tbl of
                  Inl e \<Rightarrow> Inl e
                | Inr state \<Rightarrow> Inr (mE, state))))"

subsection \<open>Notions of the specification\<close>

text \<open>The spin stored under a key.\<close>

definition spin_at :: "table \<Rightarrow> int \<Rightarrow> int" where
  "spin_at tbl k = (case map_of tbl k of None \<Rightarrow> 0 | Some nd \<Rightarrow> spin nd)"

text \<open>
  The local energy in the words of the specification: the negated sum, over the pairs of
  the coupling list, of \<open>field*spin + weight*spin*neighbourSpin\<close>.
\<close>

definition localEnergy :: "Node \<Rightarrow> table \<Rightarrow> int" where
  "localEnergy self tbl =
     - sum_list (map (\<lambda>p. h self * spin self + snd p * spin self * spin_at tbl (fst p))
                     (Jn self))"

text \<open>
  The total energy in the words of the specification: the negated sum of the edge terms
  and the field terms.
\<close>

definition totalEnergy :: "Model \<Rightarrow> table \<Rightarrow> int" where
  "totalEnergy m tbl =
     - (sum_list (map (\<lambda>(a, b, w). spin_at tbl a * spin_at tbl b * w) (Js m))
        + sum_list (map (\<lambda>(n, w). spin_at tbl n * w) (hs m)))"

text \<open>\<open>k\<close> sweeps in sequence, each on the state the previous one left; an error stops them.\<close>

definition sweeps :: "'f fpu \<Rightarrow> nat \<Rightarrow> int \<Rightarrow> 'f \<Rightarrow> py_error + table \<times> 'f source \<Rightarrow> py_error + table \<times> 'f source" where
  "sweeps fp k node_qty T =
     (\<lambda>s. case s of Inl e \<Rightarrow> Inl e | Inr (tbl, g) \<Rightarrow> update fp tbl node_qty T g) ^^ k"

text \<open>
  What the triples of an instance contribute to node \<open>k\<close>: its coupling entries, in input
  order, and its field weight (the weight of the last self-loop triple on \<open>k\<close>).
\<close>

definition couplings_of :: "int \<Rightarrow> (int \<times> int \<times> int) list \<Rightarrow> (int \<times> int) list" where
  "couplings_of k ws =
     concat (map (\<lambda>(a, b, w).
                    if a \<noteq> b
                    then (if a = k then [(b, w)] else []) @ (if b = k then [(a, w)] else [])
                    else []) ws)"

definition field_of :: "int \<Rightarrow> (int \<times> int \<times> int) list \<Rightarrow> int \<Rightarrow> int" where
  "field_of k ws h0 = fold (\<lambda>(a, b, w) x. if a = b \<and> a = k then w else x) ws h0"

definition node_after :: "int \<Rightarrow> (int \<times> int \<times> int) list \<Rightarrow> Node \<Rightarrow> Node" where
  "node_after k ws nd = nd\<lparr>h := field_of k ws (h nd), Jn := Jn nd @ couplings_of k ws\<rparr>"

text \<open>The table with the spin of the node under key \<open>n\<close> negated.\<close>

definition flip_at :: "int \<Rightarrow> table \<Rightarrow> table" where
  "flip_at n tbl = map (\<lambda>(k, nd). (k, if k = n then switchSpin nd else nd)) tbl"

text \<open>
  The shape of the tables of a run: the keys are \<open>0, ..., node_qty - 1\<close> in this order,
  every spin is \<open>1\<close> or \<open>- 1\<close>, every coupling entry names a key; and the edge and field
  lists of the model name keys.
\<close>

definition table_ok :: "int \<Rightarrow> table \<Rightarrow> bool" where
  "table_ok node_qty tbl \<longleftrightarrow>
     map fst tbl = map int [0..<nat node_qty] \<and>
     list_all (\<lambda>(k, nd). (spin nd = 1 \<or> spin nd = - 1) \<and>
                 list_all (\<lambda>p. 0 \<le> fst p \<and> fst p < node_qty) (Jn nd)) tbl"

definition model_ok :: "int \<Rightarrow> Model \<Rightarrow> bool" where
  "model_ok node_qty m \<longleftrightarrow>
     list_all (\<lambda>(a, b, w). 0 \<le> a \<and> a < node_qty \<and> 0 \<le> b \<and> b < node_qty) (Js m) \<and>
     list_all (\<lambda>(a, w). 0 \<le> a \<and> a < node_qty) (hs m)"

text \<open>
  The states of a simulation: the table of a constructed model, and every table that a
  trial of a sweep (at any temperature, with any source) produces from a state.
\<close>

inductive reachable :: "'f fpu \<Rightarrow> int \<Rightarrow> (int \<times> int \<times> int) list \<Rightarrow> Model \<Rightarrow> table \<Rightarrow> bool"
  for fp :: "'f fpu" and node_qty :: int and weights :: "(int \<times> int \<times> int) list" and m :: Model where
  constructed: "Model_init node_qty weights (g :: 'f source) = Inr (m, g')
          \<Longrightarrow> reachable fp node_qty weights m (nodes m)"
| trial: "reachable fp node_qty weights m tbl \<Longrightarrow> update_step fp tbl node_qty T g = Inr (tbl', g')
          \<Longrightarrow> reachable fp node_qty weights m tbl'"

text \<open>
  A bound on the local energy of a node, whatever the spins: every entry of the coupling
  list adds at most \<open>\<bar>field\<bar> + \<bar>weight\<bar>\<close>. The temperature \<open>T\<close> suits a table
  when \<open>math.exp(2*E/T)\<close> evaluates without error for every \<open>E \<le> 0\<close> within the bound of
  each node.
\<close>

definition node_bound :: "Node \<Rightarrow> int" where
  "node_bound nd = sum_list (map (\<lambda>p. \<bar>h nd\<bar> + \<bar>snd p\<bar>) (Jn nd))"

definition evaluates :: "'f fpu \<Rightarrow> 'f \<Rightarrow> table \<Rightarrow> bool" where
  "evaluates fp T tbl \<longleftrightarrow>
     list_all (\<lambda>(k, nd). list_all (\<lambda>E. \<not> isl (boltzmann_factor fp E T)) [- node_bound nd..0]) tbl"

text \<open>
  Float operations for running examples. The floats are real numbers; the conversion
  raises exactly for the integers that round beyond the largest double (from
  \<open>2 ^ 1024 - 2 ^ 970\<close> on, in absolute value); the quotient and the exponential are the
  exact ones, and the exponential raises from \<open>710\<close> on. This is not the arithmetic of
  doubles (nothing is rounded, nothing underflows). The examples use it where the two
  agree: on the conversions of \<open>0\<close> and \<open>- 2\<close>, the quotients by \<open>1\<close> and \<open>- 1\<close>, \<open>exp 0 = 1\<close>,
  \<open>0 < exp (- 2)\<close>, the zero test, and the conversion of \<open>- 2 * 10 ^ 400\<close>, which raises.
  The source of the examples draws the raw integer \<open>0\<close> and the uniform value \<open>0\<close> forever.
\<close>

definition example_fpu :: "real fpu" where
  "example_fpu =
     \<lparr>int_to_float = (\<lambda>n. if 2 ^ 1024 - 2 ^ 970 \<le> \<bar>n\<bar> then None else Some (real_of_int n)),
      float_is_zero = (\<lambda>x. x = 0),
      float_div = (\<lambda>a b. a / b),
      math_exp = (\<lambda>x. if 710 \<le> x then None else Some (exp x)),
      float_less = (\<lambda>a b. a < b)\<rparr>"

definition example_source :: "real source" where
  "example_source = \<lparr>ints = sconst 0, floats = sconst 0\<rparr>"

section \<open>Properties\<close>

subsection \<open>Association lists\<close>

lemma update_fresh: "k \<notin> fst ` set al \<Longrightarrow> AList.update k v al = al @ [(k, v)]"
  by (induction al) auto

lemma map_id_off_key:
  "k \<notin> fst ` set al \<Longrightarrow> map (\<lambda>(k', x). (k', if k' = k then f x else x)) al = al"
  by (induction al) auto

lemma update_map:
  "distinct (map fst al) \<Longrightarrow> map_of al k = Some v \<Longrightarrow>
   AList.update k (f v) al = map (\<lambda>(k', x). (k', if k' = k then f x else x)) al"
proof (induction al)
  case Nil
  then show ?case by simp
next
  case (Cons p al)
  obtain k0 v0 where p: "p = (k0, v0)" by (cases p)
  show ?case
  proof (cases "k0 = k")
    case True
    with Cons.prems p have "k \<notin> fst ` set al" and "v0 = v" by auto
    with True p show ?thesis by (simp add: map_id_off_key)
  next
    case False
    with Cons p show ?thesis by simp
  qed
qed

lemma keys_map_snd: "map fst (map (\<lambda>(k, x). (k, f k x)) al) = map fst al"
  by (induction al) auto

lemma map_of_map_snd:
  "map_of (map (\<lambda>(k, x). (k, f k x)) al) k = map_option (f k) (map_of al k)"
  by (induction al) auto

lemma lookup_Inr: "lookup tbl k = Inr nd \<longleftrightarrow> map_of tbl k = Some nd"
  by (simp add: lookup_def split: option.splits)

lemma lookup_Inl: "lookup tbl k = Inl e \<longleftrightarrow> map_of tbl k = None \<and> e = KeyError"
  by (auto simp: lookup_def split: option.splits)

subsection \<open>Construction\<close>

lemma couplings_of_simps:
  "couplings_of k [] = []"
  "couplings_of k ((a, b, w) # ws) =
     (if a \<noteq> b then (if a = k then [(b, w)] else []) @ (if b = k then [(a, w)] else []) else [])
     @ couplings_of k ws"
  by (simp_all add: couplings_of_def)

lemma field_of_simps:
  "field_of k [] h0 = h0"
  "field_of k ((a, b, w) # ws) h0 = field_of k ws (if a = b \<and> a = k then w else h0)"
  by (simp_all add: field_of_def)

lemma node_after_Nil: "node_after k [] nd = nd"
  by (simp add: node_after_def couplings_of_simps field_of_simps)

lemma node_after_Cons: "node_after k (w # ws) nd = node_after k ws (node_after k [w] nd)"
  by (cases w) (simp add: node_after_def couplings_of_simps field_of_simps)

lemma add_weight_shape:
  assumes d: "distinct (map fst (nodes m))" and ok: "add_weight (a, b, c) m = Inr m'"
  shows "nodes m' = map (\<lambda>(k, nd). (k, node_after k [(a, b, c)] nd)) (nodes m)"
    and "Js m' = Js m @ filter (\<lambda>(a, b, c). a \<noteq> b) [(a, b, c)]"
    and "hs m' = hs m @ map (\<lambda>(a, b, c). (a, c)) (filter (\<lambda>(a, b, c). a = b) [(a, b, c)])"
    and "a \<in> fst ` set (nodes m)" and "b \<in> fst ` set (nodes m)"
proof -
  let ?tbl = "nodes m"
  have all: "nodes m' = map (\<lambda>(k, nd). (k, node_after k [(a, b, c)] nd)) ?tbl \<and>
    Js m' = Js m @ filter (\<lambda>(a, b, c). a \<noteq> b) [(a, b, c)] \<and>
    hs m' = hs m @ map (\<lambda>(a, b, c). (a, c)) (filter (\<lambda>(a, b, c). a = b) [(a, b, c)]) \<and>
    a \<in> fst ` set ?tbl \<and> b \<in> fst ` set ?tbl"
  proof (cases "a = b")
    case True
    from ok True obtain na where na: "map_of ?tbl a = Some na"
      and m': "m' = m\<lparr>nodes := AList.update a (seth c na) ?tbl, hs := hs m @ [(a, c)]\<rparr>"
      by (auto simp: add_weight_def lookup_Inr split: sum.splits)
    have "AList.update a (seth c na) ?tbl =
        map (\<lambda>(k, x). (k, if k = a then seth c x else x)) ?tbl"
      by (rule update_map[OF d na])
    also have "\<dots> = map (\<lambda>(k, nd). (k, node_after k [(a, b, c)] nd)) ?tbl"
      using True
      by (intro map_cong refl)
         (auto simp: node_after_def seth_def couplings_of_simps field_of_simps)
    finally have "nodes m' = map (\<lambda>(k, nd). (k, node_after k [(a, b, c)] nd)) ?tbl"
      using m' by simp
    moreover from na have "a \<in> fst ` set ?tbl"
      by (meson domI domIff map_of_eq_None_iff)
    ultimately show ?thesis using m' True by simp
  next
    case False
    let ?t1 = "AList.update a (setJn (b, c) na) ?tbl"
    from ok False obtain na nb where na: "map_of ?tbl a = Some na"
      and nb: "map_of (AList.update a (setJn (b, c) na) ?tbl) b = Some nb"
      and m': "m' = m\<lparr>nodes := AList.update b (setJn (a, c) nb)
                                  (AList.update a (setJn (b, c) na) ?tbl),
                       Js := Js m @ [(a, b, c)]\<rparr>"
      by (auto simp: add_weight_def lookup_Inr split: sum.splits)
    have t1: "AList.update a (setJn (b, c) na) ?tbl =
        map (\<lambda>(k, x). (k, if k = a then setJn (b, c) x else x)) ?tbl"
      by (rule update_map[OF d na])
    have d1: "distinct (map fst (AList.update a (setJn (b, c) na) ?tbl))"
      using d by (simp add: distinct_update)
    have "AList.update b (setJn (a, c) nb) (AList.update a (setJn (b, c) na) ?tbl) =
        map (\<lambda>(k, x). (k, if k = b then setJn (a, c) x else x))
          (AList.update a (setJn (b, c) na) ?tbl)"
      by (rule update_map[OF d1 nb])
    also have "\<dots> = map (\<lambda>(k, nd). (k, node_after k [(a, b, c)] nd)) ?tbl"
      unfolding t1 map_map using False
      by (intro map_cong refl)
         (auto simp: node_after_def setJn_def couplings_of_simps field_of_simps)
    finally have "nodes m' = map (\<lambda>(k, nd). (k, node_after k [(a, b, c)] nd)) ?tbl"
      using m' by simp
    moreover from na have "a \<in> fst ` set ?tbl"
      by (meson domI domIff map_of_eq_None_iff)
    moreover from nb False have "map_of ?tbl b = Some nb"
      by (simp add: update_conv')
    then have "b \<in> fst ` set ?tbl"
      by (meson domI domIff map_of_eq_None_iff)
    ultimately show ?thesis using m' False by simp
  qed
  from all show "nodes m' = map (\<lambda>(k, nd). (k, node_after k [(a, b, c)] nd)) (nodes m)"
    and "Js m' = Js m @ filter (\<lambda>(a, b, c). a \<noteq> b) [(a, b, c)]"
    and "hs m' = hs m @ map (\<lambda>(a, b, c). (a, c)) (filter (\<lambda>(a, b, c). a = b) [(a, b, c)])"
    and "a \<in> fst ` set (nodes m)" and "b \<in> fst ` set (nodes m)"
    by simp_all
qed

lemma add_weights_shape:
  "distinct (map fst (nodes m)) \<Longrightarrow> add_weights ws m = Inr m' \<Longrightarrow>
   nodes m' = map (\<lambda>(k, nd). (k, node_after k ws nd)) (nodes m) \<and>
   Js m' = Js m @ filter (\<lambda>(a, b, c). a \<noteq> b) ws \<and>
   hs m' = hs m @ map (\<lambda>(a, b, c). (a, c)) (filter (\<lambda>(a, b, c). a = b) ws) \<and>
   (\<forall>(a, b, c) \<in> set ws. a \<in> fst ` set (nodes m) \<and> b \<in> fst ` set (nodes m))"
proof (induction ws arbitrary: m)
  case Nil
  then show ?case by (simp add: node_after_Nil)
next
  case (Cons w ws)
  obtain a b c where w: "w = (a, b, c)" by (cases w)
  from Cons.prems(2) obtain m1 where s1: "add_weight (a, b, c) m = Inr m1"
    and s2: "add_weights ws m1 = Inr m'"
    by (auto simp: w split: sum.splits)
  note sh = add_weight_shape[OF Cons.prems(1) s1]
  have k1: "map fst (nodes m1) = map fst (nodes m)"
    unfolding sh(1) by (rule keys_map_snd)
  then have d1: "distinct (map fst (nodes m1))" using Cons.prems(1) by simp
  from Cons.IH[OF d1 s2]
  have ih: "nodes m' = map (\<lambda>(k, nd). (k, node_after k ws nd)) (nodes m1)"
    "Js m' = Js m1 @ filter (\<lambda>(a, b, c). a \<noteq> b) ws"
    "hs m' = hs m1 @ map (\<lambda>(a, b, c). (a, c)) (filter (\<lambda>(a, b, c). a = b) ws)"
    "\<forall>(a, b, c) \<in> set ws. a \<in> fst ` set (nodes m1) \<and> b \<in> fst ` set (nodes m1)"
    by simp_all
  have "nodes m' = map (\<lambda>(k, nd). (k, node_after k (w # ws) nd)) (nodes m)"
    unfolding ih(1) sh(1) map_map w
    by (intro map_cong refl) (auto simp: node_after_Cons[of _ "(a, b, c)" ws])
  moreover have "fst ` set (nodes m1) = fst ` set (nodes m)"
    using k1 by (metis image_set)
  ultimately show ?case
    using ih(2,3,4) sh(2,3,4,5) by (simp add: w)
qed


lemma init_nodes_shape:
  "\<forall>x \<in> fst ` set tbl. x < n \<Longrightarrow>
   init_nodes k n tbl g =
     (tbl @ map (\<lambda>i. (n + int i,
                      \<lparr>spin = (if even (ints g !! i) then - 1 else 1), h = 0, Jn = []\<rparr>))
                [0..<k],
      g\<lparr>ints := sdrop k (ints g)\<rparr>)"
proof (induction k arbitrary: n tbl g)
  case 0
  then show ?case by simp
next
  case (Suc k)
  let ?nd = "\<lparr>spin = (if even (shd (ints g)) then - 1 else 1), h = 0, Jn = []\<rparr>"
  let ?g1 = "g\<lparr>ints := stl (ints g)\<rparr>"
  have ni: "Node_init g = (?nd, ?g1)"
    by (simp add: Node_init_def random_choice_def)
  from Suc.prems have fresh: "n \<notin> fst ` set tbl" by auto
  have upd: "AList.update n ?nd tbl = tbl @ [(n, ?nd)]"
    by (rule update_fresh[OF fresh])
  have below: "\<forall>x \<in> fst ` set (tbl @ [(n, ?nd)]). x < n + 1"
    using Suc.prems by auto
  have split: "[0..<Suc k] = 0 # map Suc [0..<k]"
    by (simp add: upt_conv_Cons map_Suc_upt del: upt_Suc)
  show ?case
    unfolding init_nodes.simps ni prod.case upd Suc.IH[OF below] split
    by (simp add: comp_def algebra_simps)
qed

lemma keys_range: "set (map int [0..<nat n]) = {x. 0 \<le> x \<and> x < n}"
proof (rule set_eqI)
  fix x :: int
  show "x \<in> set (map int [0..<nat n]) \<longleftrightarrow> x \<in> {x. 0 \<le> x \<and> x < n}"
  proof
    assume "x \<in> set (map int [0..<nat n])"
    then show "x \<in> {x. 0 \<le> x \<and> x < n}" by auto
  next
    assume "x \<in> {x. 0 \<le> x \<and> x < n}"
    then have "nat x < nat n" and "x = int (nat x)" by auto
    then show "x \<in> set (map int [0..<nat n])"
      by (metis atLeastLessThan_iff image_eqI le0 set_map set_upt)
  qed
qed

lemma couplings_of_mem:
  "p \<in> set (couplings_of k ws) \<Longrightarrow>
   \<exists>(a, b, c) \<in> set ws. a \<noteq> b \<and> ((a = k \<and> p = (b, c)) \<or> (b = k \<and> p = (a, c)))"
  by (induction ws) (auto simp: couplings_of_simps split: if_splits)

lemma Model_init_shape:
  assumes "Model_init node_qty ws g = Inr (m, g')"
  shows "nodes m = map (\<lambda>i. (int i,
              \<lparr>spin = (if even (ints g !! i) then - 1 else 1),
               h = field_of (int i) ws 0, Jn = couplings_of (int i) ws\<rparr>)) [0..<nat node_qty]"
    and "Js m = filter (\<lambda>(a, b, c). a \<noteq> b) ws"
    and "hs m = map (\<lambda>(a, b, c). (a, c)) (filter (\<lambda>(a, b, c). a = b) ws)"
    and "\<forall>(a, b, c) \<in> set ws. 0 \<le> a \<and> a < node_qty \<and> 0 \<le> b \<and> b < node_qty"
    and "g' = g\<lparr>ints := sdrop (nat node_qty) (ints g)\<rparr>"
proof -
  let ?t0 = "map (\<lambda>i. (int i, \<lparr>spin = (if even (ints g !! i) then - 1 else 1), h = 0, Jn = []\<rparr>))
               [0..<nat node_qty]"
  let ?m0 = "\<lparr>nodes = ?t0, Js = [], hs = []\<rparr>"
  have i0: "init_nodes (nat node_qty) 0 [] g = (?t0, g\<lparr>ints := sdrop (nat node_qty) (ints g)\<rparr>)"
    using init_nodes_shape[of "[]" 0 "nat node_qty" g] by simp
  from assms have aw: "add_weights ws ?m0 = Inr m"
    and g': "g' = g\<lparr>ints := sdrop (nat node_qty) (ints g)\<rparr>"
    by (auto simp: Model_init_def i0 split: sum.splits)
  have keys0: "map fst ?t0 = map int [0..<nat node_qty]"
    by (simp add: comp_def)
  have d0: "distinct (map fst (nodes ?m0))"
    by (simp add: keys0 distinct_map del: map_map) 
  note sh = add_weights_shape[OF d0 aw]
  from sh show "nodes m = map (\<lambda>i. (int i,
              \<lparr>spin = (if even (ints g !! i) then - 1 else 1),
               h = field_of (int i) ws 0, Jn = couplings_of (int i) ws\<rparr>)) [0..<nat node_qty]"
    by (simp add: comp_def node_after_def)
  from sh show "Js m = filter (\<lambda>(a, b, c). a \<noteq> b) ws"
    and "hs m = map (\<lambda>(a, b, c). (a, c)) (filter (\<lambda>(a, b, c). a = b) ws)"
    by simp_all
  have "fst ` set (nodes ?m0) = {x. 0 \<le> x \<and> x < node_qty}"
  proof -
    have "fst ` set (nodes ?m0) = set (map int [0..<nat node_qty])"
      using keys0 by (metis image_set Model.select_convs(1))
    also have "\<dots> = {x. 0 \<le> x \<and> x < node_qty}"
      by (rule keys_range)
    finally show ?thesis .
  qed
  with sh show "\<forall>(a, b, c) \<in> set ws. 0 \<le> a \<and> a < node_qty \<and> 0 \<le> b \<and> b < node_qty"
    by auto
  from g' show "g' = g\<lparr>ints := sdrop (nat node_qty) (ints g)\<rparr>" .
qed

lemma Model_init_ok:
  assumes "Model_init node_qty ws g = Inr (m, g')"
  shows "table_ok node_qty (nodes m)" and "model_ok node_qty m"
proof -
  note sh = Model_init_shape[OF assms]
  have "list_all (\<lambda>p. 0 \<le> fst p \<and> fst p < node_qty) (couplings_of k ws)" for k
    unfolding list_all_iff
  proof
    fix p assume "p \<in> set (couplings_of k ws)"
    from couplings_of_mem[OF this] sh(4) show "0 \<le> fst p \<and> fst p < node_qty"
      by fastforce
  qed
  then show "table_ok node_qty (nodes m)"
    unfolding table_ok_def sh(1) by (simp add: comp_def list_all_iff)
  from sh(4) show "model_ok node_qty m"
    unfolding model_ok_def sh(2,3) by (auto simp: list_all_iff)
qed

subsection \<open>Local energy\<close>

lemma getE_loop_sum:
  "\<forall>p \<in> set js. map_of tbl (fst p) \<noteq> None \<Longrightarrow>
   getE_loop self tbl js E =
     Inr (E + sum_list (map (\<lambda>p. h self * spin self + snd p * spin self * spin_at tbl (fst p)) js))"
proof (induction js arbitrary: E)
  case Nil
  then show ?case by simp
next
  case (Cons p js)
  then obtain nb where nb: "map_of tbl (fst p) = Some nb" by auto
  from Cons.prems have "\<forall>p \<in> set js. map_of tbl (fst p) \<noteq> None" by simp
  from Cons.IH[OF this] nb show ?case
    by (simp add: lookup_def geth_def getSpin_def spin_at_def algebra_simps)
qed

lemma getE_localEnergy:
  "\<forall>p \<in> set (Jn self). map_of tbl (fst p) \<noteq> None \<Longrightarrow> getE self tbl = Inr (localEnergy self tbl)"
  by (simp add: getE_def getJn_def getE_loop_sum localEnergy_def)

lemma getE_loop_error: "getE_loop self tbl js E = Inl e \<Longrightarrow> e = KeyError"
  by (induction js arbitrary: E) (auto simp: lookup_Inl split: sum.splits)

lemma getE_error: "getE self tbl = Inl e \<Longrightarrow> e = KeyError"
  by (auto simp: getE_def split: sum.splits dest: getE_loop_error)

subsection \<open>Tables of a run\<close>

lemma table_ok_distinct: "table_ok nq tbl \<Longrightarrow> distinct (map fst tbl)"
  by (simp add: table_ok_def distinct_map)

lemma table_ok_keys: "table_ok nq tbl \<Longrightarrow> fst ` set tbl = {x. 0 \<le> x \<and> x < nq}"
  using keys_range[of nq] by (metis table_ok_def image_set)

lemma table_ok_present:
  assumes "table_ok nq tbl" "0 \<le> k" "k < nq"
  shows "\<exists>nd. map_of tbl k = Some nd"
proof -
  from assms have "k \<in> fst ` set tbl" by (simp add: table_ok_keys)
  then show ?thesis by (meson map_of_eq_None_iff not_Some_eq)
qed

lemma table_ok_entry:
  assumes "table_ok nq tbl" "map_of tbl k = Some nd"
  shows "spin nd = 1 \<or> spin nd = - 1"
    and "\<forall>p \<in> set (Jn nd). 0 \<le> fst p \<and> fst p < nq"
    and "0 \<le> k" and "k < nq"
proof -
  from assms(2) have mem: "(k, nd) \<in> set tbl" by (rule map_of_SomeD)
  with assms(1) show "spin nd = 1 \<or> spin nd = - 1"
    and "\<forall>p \<in> set (Jn nd). 0 \<le> fst p \<and> fst p < nq"
    by (auto simp: table_ok_def list_all_iff)
  from mem have "k \<in> fst ` set tbl" by force
  with assms(1) show "0 \<le> k" and "k < nq" by (simp_all add: table_ok_keys)
qed

lemma flip_at_keys: "map fst (flip_at n tbl) = map fst tbl"
  unfolding flip_at_def by (rule keys_map_snd)

lemma map_of_flip_at:
  "map_of (flip_at n tbl) k = map_option (\<lambda>nd. if k = n then switchSpin nd else nd) (map_of tbl k)"
  unfolding flip_at_def by (rule map_of_map_snd)

lemma flip_at_entry:
  "(k, nd') \<in> set (flip_at n tbl) \<Longrightarrow>
   \<exists>nd. (k, nd) \<in> set tbl \<and> Jn nd' = Jn nd \<and> h nd' = h nd \<and>
        (spin nd' = spin nd \<or> spin nd' = - spin nd)"
  by (auto simp: flip_at_def switchSpin_def)

lemma table_ok_flip_at:
  assumes "table_ok nq tbl"
  shows "table_ok nq (flip_at n tbl)"
proof -
  have "(spin nd' = 1 \<or> spin nd' = - 1) \<and> (\<forall>p \<in> set (Jn nd'). 0 \<le> fst p \<and> fst p < nq)"
    if "(k, nd') \<in> set (flip_at n tbl)" for k nd'
  proof -
    from flip_at_entry[OF that] obtain nd where nd: "(k, nd) \<in> set tbl"
      and same: "Jn nd' = Jn nd" "spin nd' = spin nd \<or> spin nd' = - spin nd" by blast
    from assms nd have "(spin nd = 1 \<or> spin nd = - 1) \<and>
        (\<forall>p \<in> set (Jn nd). 0 \<le> fst p \<and> fst p < nq)"
      by (auto simp: table_ok_def list_all_iff)
    with same show ?thesis by auto
  qed
  with assms show ?thesis
    unfolding table_ok_def flip_at_keys by (auto simp: list_all_iff)
qed

lemma update_flip_at:
  "distinct (map fst tbl) \<Longrightarrow> map_of tbl n = Some nd \<Longrightarrow>
   AList.update n (switchSpin nd) tbl = flip_at n tbl"
  unfolding flip_at_def by (rule update_map)

lemma table_ok_getE:
  assumes "table_ok nq tbl" "map_of tbl n = Some nd"
  shows "getE nd tbl = Inr (localEnergy nd tbl)"
proof (rule getE_localEnergy, rule ballI)
  fix p assume "p \<in> set (Jn nd)"
  with table_ok_entry(2)[OF assms] have "0 \<le> fst p" "fst p < nq" by auto
  from table_ok_present[OF assms(1) this] show "map_of tbl (fst p) \<noteq> None" by auto
qed

subsection \<open>Trials and sweeps\<close>

lemma randint_range:
  "0 < nq \<Longrightarrow> random_randint 0 (nq - 1) g =
     Inr (int (shd (ints g) mod nat nq), g\<lparr>ints := stl (ints g)\<rparr>)"
  by (simp add: random_randint_def)

text \<open>What a trial does, in terms of the sampled node and its energy.\<close>

lemma update_step_unfold:
  assumes "random_randint 0 (nq - 1) g = Inr (n, g1)" "map_of tbl n = Some nd"
    "getE nd tbl = Inr E"
  shows "update_step fp tbl nq T g =
     (if E > 0 then Inr (AList.update n (switchSpin nd) tbl, g1)
      else (case boltzmann_factor fp E T of
              Inl e \<Rightarrow> Inl e
            | Inr y \<Rightarrow>
                if float_less fp (shd (floats g1)) y
                then Inr (AList.update n (switchSpin nd) tbl, g1\<lparr>floats := stl (floats g1)\<rparr>)
                else Inr (tbl, g1\<lparr>floats := stl (floats g1)\<rparr>)))"
  using assms by (simp add: update_step_def lookup_def random_random_def)

lemma boltzmann_factor_zero:
  "float_is_zero fp T \<Longrightarrow>
   boltzmann_factor fp E T =
     Inl (if int_to_float fp (2 * E) = None then OverflowError else ZeroDivisionError)"
  by (simp add: boltzmann_factor_def split: option.splits)

lemma boltzmann_factor_nonzero:
  "\<not> float_is_zero fp T \<Longrightarrow> boltzmann_factor fp E T \<noteq> Inl ZeroDivisionError"
  by (simp add: boltzmann_factor_def split: option.splits)

subsection \<open>The bound on the local energy\<close>

lemma abs_spin_at: "table_ok nq tbl \<Longrightarrow> \<bar>spin_at tbl k\<bar> \<le> 1"
proof (cases "map_of tbl k")
  case None
  then show ?thesis by (simp add: spin_at_def)
next
  case (Some nd)
  assume "table_ok nq tbl"
  from table_ok_entry(1)[OF this Some] Some show ?thesis by (auto simp: spin_at_def)
qed

lemma term_bound:
  fixes a w s t :: int
  assumes "\<bar>s\<bar> \<le> 1" "\<bar>t\<bar> \<le> 1"
  shows "\<bar>a * s + w * s * t\<bar> \<le> \<bar>a\<bar> + \<bar>w\<bar>"
proof -
  have "\<bar>a * s\<bar> \<le> \<bar>a\<bar> * 1"
    unfolding abs_mult by (rule mult_left_mono[OF assms(1)]) simp
  moreover have "\<bar>s * t\<bar> \<le> 1 * 1"
    unfolding abs_mult by (rule mult_mono[OF assms]) simp_all
  then have "\<bar>w * (s * t)\<bar> \<le> \<bar>w\<bar> * 1"
    unfolding abs_mult[of w] by (intro mult_left_mono) simp_all
  ultimately show ?thesis by (simp add: mult.assoc)
qed

lemma localEnergy_bound:
  assumes ok: "table_ok nq tbl" and nd: "map_of tbl n = Some nd"
  shows "\<bar>localEnergy nd tbl\<bar> \<le> node_bound nd"
proof -
  from table_ok_entry(1)[OF ok nd] have s: "\<bar>spin nd\<bar> \<le> 1" by auto
  have "\<bar>sum_list (map (\<lambda>p. h nd * spin nd + snd p * spin nd * spin_at tbl (fst p)) (Jn nd))\<bar>
      \<le> sum_list (map (\<lambda>p. \<bar>h nd * spin nd + snd p * spin nd * spin_at tbl (fst p)\<bar>) (Jn nd))"
    using sum_list_abs[of "map (\<lambda>p. h nd * spin nd + snd p * spin nd * spin_at tbl (fst p)) (Jn nd)"]
    by (simp add: comp_def)
  also have "\<dots> \<le> sum_list (map (\<lambda>p. \<bar>h nd\<bar> + \<bar>snd p\<bar>) (Jn nd))"
    by (rule sum_list_mono) (rule term_bound[OF s abs_spin_at[OF ok]])
  finally show ?thesis by (simp add: localEnergy_def node_bound_def)
qed

lemma node_bound_switchSpin: "node_bound (switchSpin nd) = node_bound nd"
  by (simp add: node_bound_def switchSpin_def)

lemma evaluates_entry:
  assumes "evaluates fp T tbl" "map_of tbl n = Some nd" "- node_bound nd \<le> E" "E \<le> 0"
  shows "\<exists>y. boltzmann_factor fp E T = Inr y"
proof -
  from assms(2) have "(n, nd) \<in> set tbl" by (rule map_of_SomeD)
  with assms(1) have "list_all (\<lambda>E. \<not> isl (boltzmann_factor fp E T)) [- node_bound nd..0]"
    by (auto simp: evaluates_def list_all_iff)
  with assms(3,4) have "\<not> isl (boltzmann_factor fp E T)"
    by (simp add: list_all_iff)
  then show ?thesis by (cases "boltzmann_factor fp E T") auto
qed

lemma evaluates_flip_at:
  assumes "evaluates fp T tbl"
  shows "evaluates fp T (flip_at n tbl)"
proof -
  have "list_all (\<lambda>E. \<not> isl (boltzmann_factor fp E T)) [- node_bound nd'..0]"
    if "(k, nd') \<in> set (flip_at n tbl)" for k nd'
  proof -
    from flip_at_entry[OF that] obtain nd where nd: "(k, nd) \<in> set tbl"
      and same: "Jn nd' = Jn nd" "h nd' = h nd" by blast
    from same have "node_bound nd' = node_bound nd" by (simp add: node_bound_def)
    with assms nd show ?thesis by (auto simp: evaluates_def list_all_iff)
  qed
  then show ?thesis by (auto simp: evaluates_def list_all_iff)
qed

subsection \<open>Sweeps that succeed\<close>

lemma update_step_cases:
  assumes ok: "table_ok nq tbl" and st: "update_step fp tbl nq T g = Inr (tbl', g')"
  shows "tbl' = tbl \<or> (\<exists>n. tbl' = flip_at n tbl)"
proof -
  from st obtain n g1 nd E where r: "random_randint 0 (nq - 1) g = Inr (n, g1)"
    and nd: "map_of tbl n = Some nd" and e: "getE nd tbl = Inr E"
    by (auto simp: update_step_def lookup_Inr split: sum.splits)
  note fl = update_flip_at[OF table_ok_distinct[OF ok] nd]
  from st show ?thesis
    unfolding update_step_unfold[OF r nd e] fl
    by (auto split: if_splits sum.splits)
qed

lemma update_step_preserves:
  assumes "table_ok nq tbl" "update_step fp tbl nq T g = Inr (tbl', g')"
  shows "table_ok nq tbl'"
  using update_step_cases[OF assms] assms(1) table_ok_flip_at by auto

lemma update_step_evaluates:
  assumes "table_ok nq tbl" "update_step fp tbl nq T g = Inr (tbl', g')" "evaluates fp T' tbl"
  shows "evaluates fp T' tbl'"
  using update_step_cases[OF assms(1,2)] assms(3) evaluates_flip_at by auto

lemma update_step_ok:
  assumes ok: "table_ok nq tbl" and pos: "0 < nq" and ev: "evaluates fp T tbl"
  shows "\<exists>tbl' g'. update_step fp tbl nq T g = Inr (tbl', g')"
proof -
  let ?n = "int (shd (ints g) mod nat nq)"
  let ?g1 = "g\<lparr>ints := stl (ints g)\<rparr>"
  have r: "random_randint 0 (nq - 1) g = Inr (?n, ?g1)" by (rule randint_range[OF pos])
  from pos have "shd (ints g) mod nat nq < nat nq" by simp
  with pos have "0 \<le> ?n" "?n < nq" by linarith+
  from table_ok_present[OF ok this] obtain nd where nd: "map_of tbl ?n = Some nd" ..
  note e = table_ok_getE[OF ok nd]
  show ?thesis
  proof (cases "0 < localEnergy nd tbl")
    case True
    then show ?thesis by (simp add: update_step_unfold[OF r nd e])
  next
    case False
    from localEnergy_bound[OF ok nd] have "- node_bound nd \<le> localEnergy nd tbl" by linarith
    from evaluates_entry[OF ev nd this] False obtain y
      where "boltzmann_factor fp (localEnergy nd tbl) T = Inr y" by auto
    with False show ?thesis by (simp add: update_step_unfold[OF r nd e])
  qed
qed

lemma update_loop_ok:
  "table_ok nq tbl \<Longrightarrow> 0 < nq \<Longrightarrow> evaluates fp T tbl \<Longrightarrow>
   \<exists>tbl' g'. update_loop fp k tbl nq T g = Inr (tbl', g') \<and> table_ok nq tbl' \<and> evaluates fp T tbl'"
proof (induction k arbitrary: tbl g)
  case 0
  then show ?case by simp
next
  case (Suc k)
  from update_step_ok[OF Suc.prems, of g] obtain t1 g1
    where s: "update_step fp tbl nq T g = Inr (t1, g1)" by blast
  note ok1 = update_step_preserves[OF Suc.prems(1) s]
    and ev1 = update_step_evaluates[OF Suc.prems(1) s Suc.prems(3)]
  from Suc.IH[OF ok1 Suc.prems(2) ev1, of g1] s show ?case by simp
qed

lemma update_ok:
  assumes "table_ok nq tbl" "evaluates fp T tbl"
  shows "\<exists>tbl' g'. update fp tbl nq T g = Inr (tbl', g') \<and> table_ok nq tbl' \<and> evaluates fp T tbl'"
proof (cases "0 < nq")
  case True
  from update_loop_ok[OF assms(1) True assms(2)] show ?thesis by (simp add: update_def)
next
  case False
  with assms show ?thesis by (simp add: update_def)
qed

lemma modelE_updates_ok:
  "table_ok nq tbl \<Longrightarrow> evaluates fp T tbl \<Longrightarrow>
   \<exists>tbl' g'. modelE_updates fp k tbl nq T g = Inr (tbl', g') \<and> table_ok nq tbl'"
proof (induction k arbitrary: tbl g)
  case 0
  then show ?case by simp
next
  case (Suc k)
  from update_ok[OF Suc.prems, of g] obtain t1 g1
    where s: "update fp tbl nq T g = Inr (t1, g1)" and ok1: "table_ok nq t1"
      and ev1: "evaluates fp T t1" by blast
  from Suc.IH[OF ok1 ev1, of g1] s show ?case by simp
qed

lemma sweeps_Suc:
  "sweeps fp (Suc k) nq T (Inr (tbl, g)) = sweeps fp k nq T (update fp tbl nq T g)"
  by (simp add: sweeps_def funpow_swap1)

lemma sweeps_Inl: "sweeps fp k nq T (Inl e) = Inl e"
  by (induction k) (simp_all add: sweeps_def)

lemma modelE_updates_sweeps:
  "modelE_updates fp k tbl nq T g = sweeps fp k nq T (Inr (tbl, g))"
proof (induction k arbitrary: tbl g)
  case 0
  then show ?case by (simp add: sweeps_def)
next
  case (Suc k)
  show ?case
    unfolding sweeps_Suc
    by (cases "update fp tbl nq T g") (auto simp: Suc.IH sweeps_Inl)
qed

subsection \<open>Errors of a trial stop the sweep and the run\<close>

lemma update_loop_add:
  "update_loop fp (j + k) tbl nq T g =
     (case update_loop fp j tbl nq T g of
        Inl e \<Rightarrow> Inl e
      | Inr (t1, g1) \<Rightarrow> update_loop fp k t1 nq T g1)"
proof (induction j arbitrary: tbl g)
  case 0
  then show ?case by simp
next
  case (Suc j)
  show ?case
    by (cases "update_step fp tbl nq T g") (auto simp: Suc.IH)
qed


lemma modelE_updates_add:
  "modelE_updates fp (i + k) tbl nq T g =
     (case modelE_updates fp i tbl nq T g of
        Inl e \<Rightarrow> Inl e
      | Inr (t1, g1) \<Rightarrow> modelE_updates fp k t1 nq T g1)"
proof (induction i arbitrary: tbl g)
  case 0
  then show ?case by simp
next
  case (Suc i)
  show ?case
    by (cases "update fp tbl nq T g") (auto simp: Suc.IH)
qed


lemma update_error_any_trial:
  assumes "update_loop fp j tbl nq T g = Inr (t1, g1)" "update_step fp t1 nq T g1 = Inl e"
    "j < nat nq"
  shows "update fp tbl nq T g = Inl e"
proof -
  from assms(3) obtain k where k: "nat nq = j + Suc k"
    by (auto dest: less_imp_Suc_add)
  show ?thesis
    unfolding update_def k update_loop_add using assms(1,2) by simp
qed


lemma modelE_error_any_sweep:
  assumes "modelE_updates fp i tbl nq T g = Inr (t1, g1)" "update fp t1 nq T g1 = Inl e"
    "int i < I"
  shows "modelE fp m tbl nq I T g = Inl e"
proof -
  from assms(3) have "i < nat I" by linarith
  then obtain k where k: "nat I = i + Suc k"
    by (auto dest: less_imp_Suc_add)
  have "modelE_updates fp (nat I) tbl nq T g = Inl e"
    unfolding k modelE_updates_add using assms(1,2) by simp
  then show ?thesis by (simp add: modelE_def)
qed


subsection \<open>Reachable states\<close>

lemma reachable_ok: "reachable fp nq ws m tbl \<Longrightarrow> table_ok nq tbl \<and> model_ok nq m"
proof (induction rule: reachable.induct)
  case (constructed g g')
  then show ?case by (simp add: Model_init_ok)
next
  case (trial tbl T g tbl' g')
  then show ?case by (auto dest: update_step_preserves)
qed

lemma reachable_update_loop:
  "reachable fp nq ws m tbl \<Longrightarrow> update_loop fp k tbl nq T g = Inr (tbl', g') \<Longrightarrow>
   reachable fp nq ws m tbl'"
proof (induction k arbitrary: tbl g)
  case 0
  then show ?case by simp
next
  case (Suc k)
  from Suc.prems(2) obtain t1 g1 where s: "update_step fp tbl nq T g = Inr (t1, g1)"
    and r: "update_loop fp k t1 nq T g1 = Inr (tbl', g')"
    by (auto split: sum.splits)
  from Suc.IH[OF reachable.trial[OF Suc.prems(1) s] r] show ?case .
qed

lemma reachable_modelE_updates:
  "reachable fp nq ws m tbl \<Longrightarrow> modelE_updates fp k tbl nq T g = Inr (tbl', g') \<Longrightarrow>
   reachable fp nq ws m tbl'"
proof (induction k arbitrary: tbl g)
  case 0
  then show ?case by simp
next
  case (Suc k)
  from Suc.prems(2) obtain t1 g1 where s: "update fp tbl nq T g = Inr (t1, g1)"
    and r: "modelE_updates fp k t1 nq T g1 = Inr (tbl', g')"
    by (auto split: sum.splits)
  from s have "reachable fp nq ws m t1"
    unfolding update_def by (rule reachable_update_loop[OF Suc.prems(1)])
  from Suc.IH[OF this r] show ?case .
qed

subsection \<open>Total energy\<close>

lemma modelE_Js_sum:
  "\<forall>(a, b, w) \<in> set js. map_of tbl a \<noteq> None \<and> map_of tbl b \<noteq> None \<Longrightarrow>
   modelE_Js js tbl mE =
     Inr (mE + sum_list (map (\<lambda>(a, b, w). spin_at tbl a * spin_at tbl b * w) js))"
proof (induction js arbitrary: mE)
  case Nil
  then show ?case by simp
next
  case (Cons t js)
  obtain a b w where t: "t = (a, b, w)" by (cases t)
  from Cons.prems t obtain na nb where "map_of tbl a = Some na" "map_of tbl b = Some nb"
    by auto
  moreover from Cons.prems
  have "\<forall>(a, b, w) \<in> set js. map_of tbl a \<noteq> None \<and> map_of tbl b \<noteq> None" by simp
  note Cons.IH[OF this]
  ultimately show ?case
    by (simp add: t lookup_def getSpin_def spin_at_def)
qed

lemma modelE_hs_sum:
  "\<forall>(a, w) \<in> set fs. map_of tbl a \<noteq> None \<Longrightarrow>
   modelE_hs fs tbl mE = Inr (mE + sum_list (map (\<lambda>(a, w). spin_at tbl a * w) fs))"
proof (induction fs arbitrary: mE)
  case Nil
  then show ?case by simp
next
  case (Cons t fs)
  obtain a w where t: "t = (a, w)" by (cases t)
  from Cons.prems t obtain na where "map_of tbl a = Some na" by auto
  moreover from Cons.prems have "\<forall>(a, w) \<in> set fs. map_of tbl a \<noteq> None" by simp
  note Cons.IH[OF this]
  ultimately show ?case
    by (simp add: t lookup_def getSpin_def spin_at_def)
qed

lemma energy_loops_ok:
  assumes "table_ok nq tbl" "model_ok nq m"
  shows "\<exists>mE1. modelE_Js (getJs m) tbl 0 = Inr mE1 \<and>
           modelE_hs (geths m) tbl mE1 = Inr (- totalEnergy m tbl)"
proof -
  have pres: "map_of tbl k \<noteq> None" if "0 \<le> k" "k < nq" for k
    using table_ok_present[OF assms(1) that] by auto
  have j: "\<forall>(a, b, w) \<in> set (Js m). map_of tbl a \<noteq> None \<and> map_of tbl b \<noteq> None"
    using assms(2) pres by (auto simp: model_ok_def list_all_iff)
  have f: "\<forall>(a, w) \<in> set (hs m). map_of tbl a \<noteq> None"
    using assms(2) pres by (auto simp: model_ok_def list_all_iff)
  show ?thesis
    by (simp add: getJs_def geths_def modelE_Js_sum[OF j] modelE_hs_sum[OF f] totalEnergy_def)
qed

subsection \<open>The constructed model\<close>

lemma Model_init_node:
  assumes "Model_init node_qty ws g = Inr (m, g')" "map_of (nodes m) k = Some nd"
  shows "h nd = field_of k ws 0" and "Jn nd = couplings_of k ws"
proof -
  from assms(2) have "(k, nd) \<in> set (nodes m)" by (rule map_of_SomeD)
  then have "h nd = field_of k ws 0 \<and> Jn nd = couplings_of k ws"
    unfolding Model_init_shape(1)[OF assms(1)] by auto
  then show "h nd = field_of k ws 0" and "Jn nd = couplings_of k ws" by simp_all
qed

lemma Model_init_present:
  assumes "Model_init node_qty ws g = Inr (m, g')" "0 \<le> k" "k < node_qty"
  shows "\<exists>nd. map_of (nodes m) k = Some nd"
  using table_ok_present[OF Model_init_ok(1)[OF assms(1)] assms(2,3)] .

lemma count_couplings_of:
  "a \<noteq> b \<Longrightarrow>
   count_list (couplings_of a ws) (b, w) = count_list ws (a, b, w) + count_list ws (b, a, w)"
proof (induction ws)
  case Nil
  then show ?case by (simp add: couplings_of_simps)
next
  case (Cons t ws)
  obtain x y z where t: "t = (x, y, z)" by (cases t)
  from Cons show ?case
    by (auto simp: t couplings_of_simps)
qed

lemma field_of_append: "field_of k (xs @ ys) h0 = field_of k ys (field_of k xs h0)"
  by (simp add: field_of_def)

lemma field_of_no_loop:
  "\<forall>(a, b, c) \<in> set ws. \<not> (a = k \<and> b = k) \<Longrightarrow> field_of k ws h0 = h0"
  by (induction ws arbitrary: h0) (auto simp: field_of_simps)

subsection \<open>Runs\<close>


lemma reachable_modelE:
  assumes "reachable fp nq ws m tbl" "modelE fp m tbl nq I T g = Inr (e, tbl', g')"
  shows "reachable fp nq ws m tbl'"
proof -
  from assms(2) have "modelE_updates fp (nat I) tbl nq T g = Inr (tbl', g')"
    by (auto simp: modelE_def split: sum.splits)
  from reachable_modelE_updates[OF assms(1) this] show ?thesis .
qed

lemma table_ok_spins:
  "table_ok nq tbl \<Longrightarrow> list_all (\<lambda>(k, nd). getSpin nd = 1 \<or> getSpin nd = - 1) tbl"
  by (auto simp: table_ok_def list_all_iff getSpin_def)



lemma reachable_spins:
  "reachable fp nq ws m tbl \<Longrightarrow> list_all (\<lambda>(k, nd). getSpin nd = 1 \<or> getSpin nd = - 1) tbl"
  using reachable_ok table_ok_spins by blast

text \<open>\<open>modelE\<close> in terms of its sweeps, from a state of a simulation.\<close>

lemma modelE_sweeps:
  assumes r: "reachable fp nq ws m tbl"
  shows "modelE fp m tbl nq I T g =
     (case sweeps fp (nat I) nq T (Inr (tbl, g)) of
        Inl e \<Rightarrow> Inl e
      | Inr (tbl', g') \<Rightarrow> Inr (totalEnergy m tbl', tbl', g'))"
proof (cases "modelE_updates fp (nat I) tbl nq T g")
  case (Inl e)
  then show ?thesis by (simp add: modelE_def modelE_updates_sweeps[symmetric])
next
  case (Inr p)
  obtain tbl' g' where p: "p = (tbl', g')" by (cases p)
  from Inr p have u: "modelE_updates fp (nat I) tbl nq T g = Inr (tbl', g')" by simp
  from reachable_ok[OF reachable_modelE_updates[OF r u]]
  have ok': "table_ok nq tbl'" and mok: "model_ok nq m" by simp_all
  from energy_loops_ok[OF ok' mok] obtain mE1
    where j: "modelE_Js (getJs m) tbl' 0 = Inr mE1"
      and f: "modelE_hs (geths m) tbl' mE1 = Inr (- totalEnergy m tbl')" by blast
  show ?thesis
    by (simp add: modelE_def modelE_updates_sweeps[symmetric] u j f)
qed

lemma sweeps_ok:
  assumes "reachable fp nq ws m tbl" "evaluates fp T tbl"
  shows "\<exists>tbl' g'. sweeps fp k nq T (Inr (tbl, g)) = Inr (tbl', g')"
  using modelE_updates_ok[OF conjunct1[OF reachable_ok[OF assms(1)]] assms(2), of k g]
  by (auto simp: modelE_updates_sweeps)




text \<open>The model and the table of the examples: two nodes of spin \<open>- 1\<close>, coupled with weight \<open>1\<close>.\<close>

lemma example_model:
  "Model_init 2 [(0, 1, 1)] example_source =
     Inr (\<lparr>nodes = [(0, \<lparr>spin = - 1, h = 0, Jn = [(1, 1)]\<rparr>),
                    (1, \<lparr>spin = - 1, h = 0, Jn = [(0, 1)]\<rparr>)],
           Js = [(0, 1, 1)], hs = []\<rparr>,
          example_source)"
  by (simp add: Model_init_def Node_init_def random_choice_def numeral_2_eq_2
      add_weight_def lookup_def setJn_def example_source_def)

lemma example_reachable:
  "reachable example_fpu 2 [(0, 1, 1)]
     \<lparr>nodes = [(0, \<lparr>spin = - 1, h = 0, Jn = [(1, 1)]\<rparr>),
               (1, \<lparr>spin = - 1, h = 0, Jn = [(0, 1)]\<rparr>)],
      Js = [(0, 1, 1)], hs = []\<rparr>
     [(0, \<lparr>spin = - 1, h = 0, Jn = [(1, 1)]\<rparr>), (1, \<lparr>spin = - 1, h = 0, Jn = [(0, 1)]\<rparr>)]"
  using reachable.constructed[OF example_model, of example_fpu] by simp

lemma example_boltzmann:
  "boltzmann_factor example_fpu 0 1 = Inr 1"
  "boltzmann_factor example_fpu (- 1) 1 = Inr (exp (- 2))"
  by (simp_all add: boltzmann_factor_def example_fpu_def)

lemma example_evaluates:
  "evaluates example_fpu 1
     [(0, \<lparr>spin = - 1, h = 0, Jn = [(1, 1)]\<rparr>), (1, \<lparr>spin = - 1, h = 0, Jn = [(0, 1)]\<rparr>)]"
  by (simp add: evaluates_def node_bound_def upto.simps example_boltzmann)



lemma example_source_next:
  "shd (floats example_source) = 0"
  "example_source\<lparr>floats := stl (floats example_source)\<rparr> = example_source"
  "shd (ints example_source) = 0"
  "example_source\<lparr>ints := stl (ints example_source)\<rparr> = example_source"
  by (simp_all add: example_source_def)

lemma example_randint: "random_randint 0 (2 - 1) example_source = Inr (0, example_source)"
  by (simp add: random_randint_def example_source_next)

lemma example_big:
  "boltzmann_factor example_fpu (- (10 ^ 400)) T = Inl OverflowError"
  by (simp add: boltzmann_factor_def example_fpu_def)

text \<open>The same two nodes with a coupling weight that no float holds.\<close>

lemma example_big_getE:
  "getE \<lparr>spin = - 1, h = 0, Jn = [(1, 10 ^ 400)]\<rparr>
     [(0, \<lparr>spin = - 1, h = 0, Jn = [(1, 10 ^ 400)]\<rparr>),
      (1, \<lparr>spin = - 1, h = 0, Jn = [(0, 10 ^ 400)]\<rparr>)] = Inr (- (10 ^ 400))"
  by (simp add: getE_def getJn_def geth_def getSpin_def lookup_def)

lemma example_big_step:
  "update_step example_fpu
     [(0, \<lparr>spin = - 1, h = 0, Jn = [(1, 10 ^ 400)]\<rparr>),
      (1, \<lparr>spin = - 1, h = 0, Jn = [(0, 10 ^ 400)]\<rparr>)]
     2 1 example_source = Inl OverflowError"
proof -
  let ?tbl = "[(0::int, \<lparr>spin = - 1, h = 0, Jn = [(1, 10 ^ 400)]\<rparr>),
      (1, \<lparr>spin = - 1, h = 0, Jn = [(0, 10 ^ 400)]\<rparr>)]"
  let ?nd = "\<lparr>spin = - 1, h = 0, Jn = [(1, 10 ^ 400)]\<rparr>"
  have l: "map_of ?tbl 0 = Some ?nd" by simp
  have n: "\<not> (0::int) < - (10 ^ 400)" by simp
  show ?thesis
    by (simp only: update_step_unfold[OF example_randint l example_big_getE] example_big
        sum.case n if_False)
qed

lemma example_big_model:
  "Model_init 2 [(0, 1, 10 ^ 400)] example_source =
     Inr (\<lparr>nodes = [(0, \<lparr>spin = - 1, h = 0, Jn = [(1, 10 ^ 400)]\<rparr>),
                    (1, \<lparr>spin = - 1, h = 0, Jn = [(0, 10 ^ 400)]\<rparr>)],
           Js = [(0, 1, 10 ^ 400)], hs = []\<rparr>,
          example_source)"
  by (simp add: Model_init_def Node_init_def random_choice_def numeral_2_eq_2
      add_weight_def lookup_def setJn_def example_source_def)


section \<open>The claims\<close>

subsection \<open>Node: flip and local energy\<close>

text \<open>
  C10. Flipping a node negates its spin, and flipping it twice gives the node back: the
  flip is an involution. This holds for every spin value, so in particular for \<open>1\<close> and
  \<open>- 1\<close>.
\<close>

theorem switchSpin_involution:
  "switchSpin (switchSpin self) = self \<and> getSpin (switchSpin self) = - getSpin self"
  by (simp add: switchSpin_def getSpin_def)

text \<open>
  C2. When every neighbour named in the coupling list of a node is in the table (otherwise
  the lookup raises), \<open>getE\<close> returns the negated sum, over the pairs \<open>(neighbour, weight)\<close>
  of the list, of \<open>field*spin + weight*spin*neighbourSpin\<close>. The field term is therefore
  counted once for each of the \<open>k\<close> entries of the list: \<open>k\<close> times, not once.
\<close>

theorem getE_sum:
  assumes "\<forall>p \<in> set (getJn self). map_of tbl (fst p) \<noteq> None"
  shows "getE self tbl =
      Inr (- sum_list (map (\<lambda>p. geth self * getSpin self
                                 + snd p * getSpin self * spin_at tbl (fst p)) (getJn self))) \<and>
    getE self tbl =
      Inr (- (int (length (getJn self)) * (geth self * getSpin self)
              + sum_list (map (\<lambda>p. snd p * getSpin self * spin_at tbl (fst p)) (getJn self))))"
proof -
  have split: "sum_list (map (\<lambda>p. c + f p) xs) = int (length xs) * c + sum_list (map f xs)"
    for c :: int and f :: "int \<times> int \<Rightarrow> int" and xs
    by (induction xs) (simp_all add: algebra_simps)
  from assms have "getE self tbl = Inr (localEnergy self tbl)"
    by (intro getE_localEnergy) (simp add: getJn_def)
  then show ?thesis
    by (simp add: localEnergy_def geth_def getSpin_def getJn_def split)
qed

text \<open>
  A node with field \<open>3\<close>, spin \<open>1\<close> and two couplings (weights \<open>2\<close> and \<open>5\<close>) to a
  neighbour of spin \<open>- 1\<close>: the energy is \<open>- ((3 - 2) + (3 - 5)) = 1\<close>, the field counted
  twice.
\<close>

theorem getE_sum_witness:
  "getE \<lparr>spin = 1, h = 3, Jn = [(1, 2), (1, 5)]\<rparr>
        [(0, \<lparr>spin = 1, h = 3, Jn = [(1, 2), (1, 5)]\<rparr>),
         (1, \<lparr>spin = - 1, h = 0, Jn = [(0, 2), (0, 5)]\<rparr>)] = Inr 1"
proof -
  have hyp: "\<forall>p \<in> set (getJn \<lparr>spin = 1, h = 3, Jn = [(1, 2), (1, 5)]\<rparr>).
      map_of [(0, \<lparr>spin = 1, h = 3, Jn = [(1, 2), (1, 5)]\<rparr>),
              (1::int, \<lparr>spin = - 1, h = 0, Jn = [(0, 2), (0, 5)]\<rparr>)] (fst p) \<noteq> None"
    by (simp add: getJn_def)
  from getE_sum[OF hyp] show ?thesis
    by (simp add: getJn_def geth_def getSpin_def spin_at_def)
qed

subsection \<open>The empty model\<close>

text \<open>
  C8. With \<open>node_qty = 0\<close> and no triples the model is empty; a sweep runs no trial and
  returns the table and the source as they were, whatever the temperature (zero
  included) and whatever the float operations; and \<open>modelE\<close> returns the energy \<open>0\<close> for
  every iteration count and temperature, as does the whole run, which renders the empty
  spin sequence.
\<close>

theorem empty_model_noop:
  "Model_init 0 [] g = Inr (\<lparr>nodes = [], Js = [], hs = []\<rparr>, g) \<and>
   update fp tbl 0 T g = Inr (tbl, g) \<and>
   modelE fp \<lparr>nodes = [], Js = [], hs = []\<rparr> [] 0 I T g = Inr (0, [], g) \<and>
   main_run fp 0 [] I T g = Inr (0, [])"
proof -
  have u: "update fp tbl 0 T g = Inr (tbl, g)" for tbl and g :: "'a source"
    by (simp add: update_def)
  have k: "modelE_updates fp k [] 0 T g = Inr ([], g)" for k
    by (induction k) (simp_all add: u)
  have i: "Model_init 0 [] g = Inr (\<lparr>nodes = [], Js = [], hs = []\<rparr>, g)"
    by (simp add: Model_init_def)
  have e: "modelE fp \<lparr>nodes = [], Js = [], hs = []\<rparr> [] 0 I T g = Inr (0, [], g)"
    by (simp add: modelE_def k getJs_def geths_def)
  have "main_run fp 0 [] I T g = Inr (0, [])"
    by (simp add: main_run_def i getNodes_def e modelSpin_def)
  with u i e show ?thesis by simp
qed

subsection \<open>Construction\<close>

text \<open>
  C6. When the construction succeeds, the edge list of the model is the list of the
  input triples with distinct endpoints, in input order. For every input triple
  \<open>(a, b, w)\<close> with \<open>a \<noteq> b\<close>, node \<open>a\<close> has the entry \<open>(b, w)\<close> in its coupling list, node
  \<open>b\<close> has the entry \<open>(a, w)\<close>, and \<open>(a, b, w)\<close> is in the edge list. Nothing is
  deduplicated: the edge list holds the triple as often as the input does, and the entry
  occurs in each coupling list once for every input triple \<open>(a, b, w)\<close> or \<open>(b, a, w)\<close>.
\<close>

theorem Model_init_couplings:
  assumes "Model_init node_qty weights g = Inr (m, g')"
  shows "getJs m = filter (\<lambda>(a, b, w). a \<noteq> b) weights \<and>
    (\<forall>(a, b, w) \<in> set weights. a \<noteq> b \<longrightarrow>
       (\<exists>na nb. map_of (getNodes m) a = Some na \<and> map_of (getNodes m) b = Some nb \<and>
          (b, w) \<in> set (getJn na) \<and> (a, w) \<in> set (getJn nb) \<and> (a, b, w) \<in> set (getJs m) \<and>
          count_list (getJn na) (b, w) = count_list weights (a, b, w) + count_list weights (b, a, w) \<and>
          count_list (getJn nb) (a, w) = count_list weights (a, b, w) + count_list weights (b, a, w) \<and>
          count_list (getJs m) (a, b, w) = count_list weights (a, b, w)))"
proof (intro conjI)
  note sh = Model_init_shape[OF assms]
  show js: "getJs m = filter (\<lambda>(a, b, w). a \<noteq> b) weights"
    by (simp add: getJs_def sh(2))
  show "\<forall>(a, b, w) \<in> set weights. a \<noteq> b \<longrightarrow>
       (\<exists>na nb. map_of (getNodes m) a = Some na \<and> map_of (getNodes m) b = Some nb \<and>
          (b, w) \<in> set (getJn na) \<and> (a, w) \<in> set (getJn nb) \<and> (a, b, w) \<in> set (getJs m) \<and>
          count_list (getJn na) (b, w) = count_list weights (a, b, w) + count_list weights (b, a, w) \<and>
          count_list (getJn nb) (a, w) = count_list weights (a, b, w) + count_list weights (b, a, w) \<and>
          count_list (getJs m) (a, b, w) = count_list weights (a, b, w))"
  proof (clarify)
    fix a b w :: int
    assume mem: "(a, b, w) \<in> set weights" and ne: "a \<noteq> b"
    from sh(4) mem have r: "0 \<le> a" "a < node_qty" "0 \<le> b" "b < node_qty" by auto
    from Model_init_present[OF assms r(1,2)] obtain na where na: "map_of (nodes m) a = Some na" ..
    from Model_init_present[OF assms r(3,4)] obtain nb where nb: "map_of (nodes m) b = Some nb" ..
    note ja = Model_init_node(2)[OF assms na] and jb = Model_init_node(2)[OF assms nb]
    have ca: "count_list (Jn na) (b, w) = count_list weights (a, b, w) + count_list weights (b, a, w)"
      unfolding ja by (rule count_couplings_of[OF ne])
    have cb: "count_list (Jn nb) (a, w) = count_list weights (a, b, w) + count_list weights (b, a, w)"
      unfolding jb using count_couplings_of[of b a weights w] ne by simp
    from mem have "count_list weights (a, b, w) \<noteq> 0"
      by (simp only: count_list_0_iff not_not)
    then have pos: "0 < count_list weights (a, b, w)" by simp
    from pos ca have "count_list (Jn na) (b, w) \<noteq> 0" by simp
    then have "(b, w) \<in> set (Jn na)" by (simp only: count_list_0_iff not_not)
    moreover from pos cb have "count_list (Jn nb) (a, w) \<noteq> 0" by simp
    then have "(a, w) \<in> set (Jn nb)" by (simp only: count_list_0_iff not_not)
    moreover have cj: "count_list (Js m) (a, b, w) = count_list weights (a, b, w)"
      unfolding sh(2) using ne by (induction weights) auto
    moreover from cj pos have "count_list (Js m) (a, b, w) \<noteq> 0" by simp
    then have "(a, b, w) \<in> set (Js m)" by (simp only: count_list_0_iff not_not)
    ultimately show "\<exists>na nb. map_of (getNodes m) a = Some na \<and> map_of (getNodes m) b = Some nb \<and>
          (b, w) \<in> set (getJn na) \<and> (a, w) \<in> set (getJn nb) \<and> (a, b, w) \<in> set (getJs m) \<and>
          count_list (getJn na) (b, w) = count_list weights (a, b, w) + count_list weights (b, a, w) \<and>
          count_list (getJn nb) (a, w) = count_list weights (a, b, w) + count_list weights (b, a, w) \<and>
          count_list (getJs m) (a, b, w) = count_list weights (a, b, w)"
      using na nb ca cb by (auto simp: getNodes_def getJn_def getJs_def)
  qed
qed

text \<open>The same coupling given twice: both copies are in the edge list and in both coupling lists.\<close>

theorem Model_init_couplings_witness:
  "\<exists>m g'. Model_init 2 [(0, 1, 4), (0, 1, 4)] example_source = Inr (m, g') \<and>
     getJs m = [(0, 1, 4), (0, 1, 4)] \<and>
     (\<exists>na nb. map_of (getNodes m) 0 = Some na \<and> map_of (getNodes m) 1 = Some nb \<and>
        count_list (getJn na) (1, 4) = 2 \<and> count_list (getJn nb) (0, 4) = 2)"
proof -
  obtain m g' where
    h1: "Model_init 2 [(0, 1, 4), (0, 1, 4)] example_source = Inr (m, g')"
    by (simp add: Model_init_def Node_init_def random_choice_def numeral_2_eq_2
        add_weight_def lookup_def setJn_def example_source_def)
  note t = Model_init_couplings[OF h1]
  from t have "getJs m = [(0, 1, 4), (0, 1, 4)]" by simp
  moreover from t have "\<exists>na nb. map_of (getNodes m) 0 = Some na \<and> map_of (getNodes m) 1 = Some nb \<and>
        count_list (getJn na) (1, 4) = 2 \<and> count_list (getJn nb) (0, 4) = 2"
    by fastforce
  ultimately show ?thesis using h1 by blast
qed

text \<open>
  C7. When the triple list holds the self-loop \<open>(n, n, w1)\<close> and later the self-loop
  \<open>(n, n, w2)\<close>, and no self-loop on \<open>n\<close> follows, the constructed node \<open>n\<close> has the field
  weight \<open>w2\<close>: the field is overwritten, whatever \<open>w1\<close> was, not accumulated.
\<close>

theorem Model_init_field_overwrite:
  assumes "Model_init node_qty (ws1 @ [(n, n, w1)] @ ws2 @ [(n, n, w2)] @ ws3) g = Inr (m, g')"
    and "\<forall>(a, b, c) \<in> set ws3. \<not> (a = n \<and> b = n)"
  shows "\<exists>nd. map_of (getNodes m) n = Some nd \<and> geth nd = w2"
proof -
  let ?ws = "ws1 @ [(n, n, w1)] @ ws2 @ [(n, n, w2)] @ ws3"
  have "(n, n, w2) \<in> set ?ws" by simp
  with Model_init_shape(4)[OF assms(1)] have "0 \<le> n" "n < node_qty" by auto
  from Model_init_present[OF assms(1) this] obtain nd where nd: "map_of (nodes m) n = Some nd" ..
  have "h nd = field_of n ?ws 0" by (rule Model_init_node(1)[OF assms(1) nd])
  also have "\<dots> = w2"
    by (simp add: field_of_append field_of_simps field_of_no_loop[OF assms(2)])
  finally show ?thesis using nd by (simp add: getNodes_def geth_def)
qed

text \<open>Two self-loops on node \<open>0\<close> with the weights \<open>3\<close> and \<open>7\<close>: the field is \<open>7\<close>, not \<open>10\<close>.\<close>

theorem Model_init_field_overwrite_witness:
  "\<exists>m g'. Model_init 1 [(0, 0, 3), (0, 0, 7)] example_source = Inr (m, g') \<and>
     (\<exists>nd. map_of (getNodes m) 0 = Some nd \<and> geth nd = 7)"
proof -
  obtain m g' where
    h1: "Model_init 1 ([] @ [(0, 0, 3)] @ [] @ [(0, 0, 7)] @ []) example_source
           = Inr (m, g')"
    by (simp add: Model_init_def Node_init_def random_choice_def
        add_weight_def lookup_def seth_def example_source_def)
  have h2: "\<forall>(a, b, c) \<in> set ([] :: (int \<times> int \<times> int) list). \<not> (a = 0 \<and> b = 0)" by simp
  from Model_init_field_overwrite[OF h1 h2] h1 show ?thesis by simp
qed

subsection \<open>The acceptance rule\<close>




subsection \<open>Temperature zero and below\<close>

text \<open>
  C4 (as the code has it). The temperature is used only in \<open>math.exp(2*E/T)\<close>, which is
  evaluated only in a trial whose sampled node has \<open>E \<le> 0\<close>. Take \<open>T\<close> zero, and any trial
  of a run: the trial after \<open>j\<close> trials of the sweep that follows \<open>i\<close> sweeps. If its sampled
  node has \<open>E > 0\<close>, the node is flipped and the temperature is not looked at. If it has
  \<open>E \<le> 0\<close>, the trial raises: \<open>ZeroDivisionError\<close>, or \<open>OverflowError\<close> when \<open>2*E\<close> is too
  large to convert to a float (the conversion comes first); the sweep raises the same
  error, and so do \<open>modelE\<close> with more than \<open>i\<close> iterations and the whole run, which
  produce no energy and no spin sequence. At a temperature that is not zero no trial
  raises \<open>ZeroDivisionError\<close>.
\<close>

theorem update_zero_temperature:
  assumes zero: "float_is_zero fp T"
    and sweeps_before: "modelE_updates fp i tbl0 node_qty T g0 = Inr (tbl, g)"
    and trials_before: "update_loop fp j tbl node_qty T g = Inr (t1, g1)"
    and sample: "random_randint 0 (node_qty - 1) g1 = Inr (n, g2)"
      "lookup t1 n = Inr nd" "getE nd t1 = Inr E"
  shows "(0 < E \<longrightarrow>
            update_step fp t1 node_qty T g1 = Inr (AList.update n (switchSpin nd) t1, g2)) \<and>
    (E \<le> 0 \<longrightarrow>
       (let err = (if int_to_float fp (2 * E) = None then OverflowError else ZeroDivisionError)
        in update_step fp t1 node_qty T g1 = Inl err \<and>
           (j < nat node_qty \<longrightarrow>
              update fp tbl node_qty T g = Inl err \<and>
              (int i < I \<longrightarrow>
                 modelE fp m tbl0 node_qty I T g0 = Inl err \<and>
                 (Model_init node_qty weights gi = Inr (m, g0) \<and> tbl0 = getNodes m \<longrightarrow>
                    main_run fp node_qty weights I T gi = Inl err))))) \<and>
    (\<not> float_is_zero fp T' \<longrightarrow> update_step fp t1 node_qty T' g1 \<noteq> Inl ZeroDivisionError)"
proof -
  from sample(2) have nd: "map_of t1 n = Some nd" by (simp add: lookup_Inr)
  note u = update_step_unfold[OF sample(1) nd sample(3)]
  let ?err = "if int_to_float fp (2 * E) = None then OverflowError else ZeroDivisionError"
  have pos: "update_step fp t1 node_qty T g1 = Inr (AList.update n (switchSpin nd) t1, g2)"
    if "0 < E" using that by (simp add: u)
  have z: "update_step fp t1 node_qty T g1 = Inl ?err" if "E \<le> 0"
    using that by (simp add: u boltzmann_factor_zero[OF zero])
  have zu: "update fp tbl node_qty T g = Inl ?err" if "E \<le> 0" "j < nat node_qty"
    by (rule update_error_any_trial[OF trials_before z[OF that(1)] that(2)])
  have zm: "modelE fp m tbl0 node_qty I T g0 = Inl ?err"
    if "E \<le> 0" "j < nat node_qty" "int i < I"
    by (rule modelE_error_any_sweep[OF sweeps_before zu[OF that(1,2)] that(3)])
  have zr: "main_run fp node_qty weights I T gi = Inl ?err"
    if "E \<le> 0" "j < nat node_qty" "int i < I"
      "Model_init node_qty weights gi = Inr (m, g0)" "tbl0 = getNodes m"
    using zm[OF that(1,2,3)] that(4,5) by (simp add: main_run_def)
  have nz: "update_step fp t1 node_qty T' g1 \<noteq> Inl ZeroDivisionError"
    if "\<not> float_is_zero fp T'"
    using boltzmann_factor_nonzero[OF that, of E]
    by (auto simp: u split: sum.splits)
  from pos z zu zm zr nz show ?thesis
    unfolding Let_def by blast
qed

text \<open>
  Two nodes of spins \<open>1\<close> and \<open>- 1\<close> with the coupling \<open>(0, 1, 1)\<close> and the field \<open>5\<close> on node
  \<open>1\<close>, at \<open>T = 0\<close> with two iterations: the first sweep flips node \<open>0\<close> (\<open>E = 1\<close>) and node
  \<open>1\<close> (\<open>E = 4\<close>); the second sweep flips node \<open>0\<close> (\<open>E = 1\<close>) and samples it again, now with
  \<open>E = - 1\<close>: the fourth trial of the run raises, and the run with it.
\<close>

theorem update_zero_temperature_witness:
  "main_run example_fpu 2 [(0, 1, 1), (1, 1, 5)] 2 0
     \<lparr>ints = 1 ## 0 ## 0 ## 1 ## sconst 0, floats = sconst 0\<rparr> = Inl ZeroDivisionError"
proof -
  let ?ga = "\<lparr>ints = 1 ## 0 ## 0 ## 1 ## sconst 0, floats = sconst (0::real)\<rparr>"
  let ?gb = "\<lparr>ints = 0 ## 1 ## sconst 0, floats = sconst (0::real)\<rparr>"
  let ?md = "\<lparr>nodes = [(0, \<lparr>spin = 1, h = 0, Jn = [(1, 1)]\<rparr>),
                       (1, \<lparr>spin = - 1, h = 5, Jn = [(0, 1)]\<rparr>)],
              Js = [(0, 1, 1)], hs = [(1, 5)]\<rparr>"
  let ?ta = "[(0::int, \<lparr>spin = 1, h = 0, Jn = [(1, 1)]\<rparr>),
                (1, \<lparr>spin = - 1, h = 5, Jn = [(0, 1)]\<rparr>)]"
  let ?tb = "[(0::int, \<lparr>spin = - 1, h = 0, Jn = [(1, 1)]\<rparr>),
               (1, \<lparr>spin = 1, h = 5, Jn = [(0, 1)]\<rparr>)]"
  let ?tc = "[(0::int, \<lparr>spin = 1, h = 0, Jn = [(1, 1)]\<rparr>),
              (1, \<lparr>spin = 1, h = 5, Jn = [(0, 1)]\<rparr>)]"
  have zero: "float_is_zero example_fpu 0" by (simp add: example_fpu_def)
  have init: "Model_init 2 [(0, 1, 1), (1, 1, 5)] ?ga = Inr (?md, ?gb)"
    by (simp add: Model_init_def Node_init_def random_choice_def numeral_2_eq_2
        add_weight_def lookup_def setJn_def seth_def)
  have s1: "modelE_updates example_fpu 1 ?ta 2 0 ?gb = Inr (?tb, example_source)"
    by (simp add: update_def update_step_def random_randint_def lookup_def getE_def
        getJn_def geth_def getSpin_def switchSpin_def numeral_2_eq_2 example_source_def)
  have t1: "update_loop example_fpu 1 ?tb 2 0 example_source = Inr (?tc, example_source)"
    by (simp add: update_step_def random_randint_def lookup_def getE_def
        getJn_def geth_def getSpin_def switchSpin_def example_source_def)
  have l: "lookup ?tc 0 = Inr \<lparr>spin = 1, h = 0, Jn = [(1, 1)]\<rparr>"
    by (simp add: lookup_def)
  have e: "getE \<lparr>spin = 1, h = 0, Jn = [(1, 1)]\<rparr> ?tc = Inr (- 1)"
    by (simp add: getE_def getJn_def geth_def getSpin_def lookup_def)
  have c: "int_to_float example_fpu (2 * - 1) \<noteq> None" by (simp add: example_fpu_def)
  from update_zero_temperature[OF zero s1 t1 example_randint l e, of 2 ?md "[(0, 1, 1), (1, 1, 5)]" ?ga]
    init c
  show ?thesis by (simp add: getNodes_def Let_def)
qed

text \<open>
  C4 as stated fails. At \<open>T = - 1\<close> the run on one node performs its sweep (\<open>E = 0\<close>, the
  quotient \<open>0\<close>, \<open>exp 0 = 1\<close>, the draw \<open>0 < 1\<close>, a flip) and returns the energy \<open>0\<close> and the
  spins \<open>+\<close>. At \<open>T = 0\<close>, on the model above with one iteration, the sweep samples node \<open>0\<close>
  (\<open>E = 1\<close>) and then node \<open>1\<close> (\<open>E = 4\<close>): both are flipped, the temperature is never
  used, and the run returns the energy \<open>- 4\<close> and the spins \<open>-+\<close>.
\<close>

theorem nonpositive_temperature_counterexample:
  "main_run example_fpu 1 [] 1 (- 1) example_source = Inr (0, ''+'') \<and>
   main_run example_fpu 2 [(0, 1, 1), (1, 1, 5)] 1 0
     \<lparr>ints = 1 ## 0 ## 0 ## 1 ## sconst 0, floats = sconst 0\<rparr> = Inr (- 4, ''-+'')"
  by (simp add: main_run_def Model_init_def Node_init_def random_choice_def add_weight_def
      lookup_def setJn_def seth_def getNodes_def modelE_def update_def update_step_def
      random_randint_def random_random_def getE_def getJn_def geth_def getSpin_def
      switchSpin_def getJs_def geths_def modelSpin_def numeral_2_eq_2
      boltzmann_factor_def example_fpu_def example_source_def)

subsection \<open>The spin invariant\<close>

text \<open>
  C5. In every state of a simulation (the table of a constructed model, and the table
  after any number of trials from there, at any temperature, with any random source and
  whatever the float operations compute) every node has the spin \<open>1\<close> or \<open>- 1\<close>. The
  tables that a sweep or \<open>modelE\<close> returns from such a state are such states, so the same
  holds for them.
\<close>

theorem spin_invariant:
  assumes "reachable fp node_qty weights m tbl"
  shows "list_all (\<lambda>(k, nd). getSpin nd = 1 \<or> getSpin nd = - 1) tbl \<and>
    (\<forall>T g tbl' g'. update fp tbl node_qty T g = Inr (tbl', g') \<longrightarrow>
       list_all (\<lambda>(k, nd). getSpin nd = 1 \<or> getSpin nd = - 1) tbl') \<and>
    (\<forall>I T g e tbl' g'. modelE fp m tbl node_qty I T g = Inr (e, tbl', g') \<longrightarrow>
       list_all (\<lambda>(k, nd). getSpin nd = 1 \<or> getSpin nd = - 1) tbl')"
proof (intro conjI allI impI)
  show "list_all (\<lambda>(k, nd). getSpin nd = 1 \<or> getSpin nd = - 1) tbl"
    by (rule reachable_spins[OF assms])
next
  fix T g tbl' g'
  assume "update fp tbl node_qty T g = Inr (tbl', g')"
  then have "reachable fp node_qty weights m tbl'"
    unfolding update_def by (rule reachable_update_loop[OF assms])
  then show "list_all (\<lambda>(k, nd). getSpin nd = 1 \<or> getSpin nd = - 1) tbl'"
    by (rule reachable_spins)
next
  fix I T g e tbl' g'
  assume "modelE fp m tbl node_qty I T g = Inr (e, tbl', g')"
  from reachable_modelE[OF assms this]
  show "list_all (\<lambda>(k, nd). getSpin nd = 1 \<or> getSpin nd = - 1) tbl'"
    by (rule reachable_spins)
qed

text \<open>Three sweeps on two coupled nodes: the run returns, and every spin of its table is \<open>1\<close> or \<open>- 1\<close>.\<close>

theorem spin_invariant_witness:
  "\<exists>e tbl' g'.
     modelE example_fpu
       \<lparr>nodes = [(0, \<lparr>spin = - 1, h = 0, Jn = [(1, 1)]\<rparr>),
                 (1, \<lparr>spin = - 1, h = 0, Jn = [(0, 1)]\<rparr>)],
        Js = [(0, 1, 1)], hs = []\<rparr>
       [(0, \<lparr>spin = - 1, h = 0, Jn = [(1, 1)]\<rparr>), (1, \<lparr>spin = - 1, h = 0, Jn = [(0, 1)]\<rparr>)]
       2 3 1 example_source = Inr (e, tbl', g') \<and>
     list_all (\<lambda>(k, nd). getSpin nd = 1 \<or> getSpin nd = - 1) tbl'"
proof -
  let ?tbl = "[(0::int, \<lparr>spin = - 1, h = 0, Jn = [(1, 1)]\<rparr>), (1, \<lparr>spin = - 1, h = 0, Jn = [(0, 1)]\<rparr>)]"
  let ?md = "\<lparr>nodes = ?tbl, Js = [(0, 1, 1)], hs = []\<rparr>"
  note r = example_reachable
  from sweeps_ok[OF r example_evaluates, of "nat 3" example_source] obtain tbl' g'
    where s: "sweeps example_fpu (nat 3) 2 1 (Inr (?tbl, example_source)) = Inr (tbl', g')"
    by blast
  have run: "modelE example_fpu ?md ?tbl 2 3 1 example_source = Inr (totalEnergy ?md tbl', tbl', g')"
    unfolding modelE_sweeps[OF r] s by simp
  from spin_invariant[OF r] run
  have "list_all (\<lambda>(k, nd). getSpin nd = 1 \<or> getSpin nd = - 1) tbl'" by blast
  with run show ?thesis by blast
qed

subsection \<open>Rendering\<close>



subsection \<open>The energy of a run\<close>

text \<open>
  C3 (as the code has it). From every state of a simulation, \<open>modelE\<close> with the iteration
  count \<open>I\<close> performs the \<open>I\<close> sweeps in sequence (\<open>nat I\<close> is \<open>I\<close> for \<open>I \<ge> 0\<close>; a negative
  count runs none). If a sweep raises an error, \<open>modelE\<close> raises it and returns no energy.
  Otherwise the sweeps leave a table, and \<open>modelE\<close> returns the negated sum of
  \<open>spin[a]*spin[b]*w\<close> over the edge triples and of \<open>spin[n]*w\<close> over the field pairs, on the
  spins of that table; the value is an \<open>int\<close>. The sweeps all succeed when the temperature
  suits the table: when \<open>math.exp(2*E/T)\<close> evaluates without error for every \<open>E \<le> 0\<close>
  within the bound of each node on its local energy.
\<close>

theorem modelE_energy:
  assumes "reachable fp node_qty weights m tbl"
  shows "modelE fp m tbl node_qty I T g =
      (case sweeps fp (nat I) node_qty T (Inr (tbl, g)) of
         Inl e \<Rightarrow> Inl e
       | Inr (tbl', g') \<Rightarrow>
           Inr (- (sum_list (map (\<lambda>(a, b, w). spin_at tbl' a * spin_at tbl' b * w) (getJs m))
                   + sum_list (map (\<lambda>(n, w). spin_at tbl' n * w) (geths m))),
                tbl', g')) \<and>
    (evaluates fp T tbl \<longrightarrow>
       (\<exists>tbl' g'. sweeps fp (nat I) node_qty T (Inr (tbl, g)) = Inr (tbl', g')))"
proof
  show "modelE fp m tbl node_qty I T g =
      (case sweeps fp (nat I) node_qty T (Inr (tbl, g)) of
         Inl e \<Rightarrow> Inl e
       | Inr (tbl', g') \<Rightarrow>
           Inr (- (sum_list (map (\<lambda>(a, b, w). spin_at tbl' a * spin_at tbl' b * w) (getJs m))
                   + sum_list (map (\<lambda>(n, w). spin_at tbl' n * w) (geths m))),
                tbl', g'))"
    unfolding modelE_sweeps[OF assms]
    by (cases "sweeps fp (nat I) node_qty T (Inr (tbl, g))")
       (auto simp: totalEnergy_def getJs_def geths_def)
  show "evaluates fp T tbl \<longrightarrow>
       (\<exists>tbl' g'. sweeps fp (nat I) node_qty T (Inr (tbl, g)) = Inr (tbl', g'))"
    using sweeps_ok[OF assms] by blast
qed

text \<open>
  Three sweeps on two nodes with the coupling \<open>(0, 1, 1)\<close> at temperature \<open>1\<close>: the local
  energies are within \<open>1\<close>, and \<open>math.exp\<close> evaluates at \<open>0\<close> and at \<open>- 2\<close>.
\<close>

theorem modelE_energy_witness:
  "\<exists>tbl' g'.
     sweeps example_fpu 3 2 1
       (Inr ([(0, \<lparr>spin = - 1, h = 0, Jn = [(1, 1)]\<rparr>),
              (1, \<lparr>spin = - 1, h = 0, Jn = [(0, 1)]\<rparr>)], example_source)) = Inr (tbl', g') \<and>
     modelE example_fpu
       \<lparr>nodes = [(0, \<lparr>spin = - 1, h = 0, Jn = [(1, 1)]\<rparr>),
                 (1, \<lparr>spin = - 1, h = 0, Jn = [(0, 1)]\<rparr>)],
        Js = [(0, 1, 1)], hs = []\<rparr>
       [(0, \<lparr>spin = - 1, h = 0, Jn = [(1, 1)]\<rparr>), (1, \<lparr>spin = - 1, h = 0, Jn = [(0, 1)]\<rparr>)]
       2 3 1 example_source =
       Inr (- (spin_at tbl' 0 * spin_at tbl' 1 * 1), tbl', g')"
proof -
  let ?tbl = "[(0::int, \<lparr>spin = - 1, h = 0, Jn = [(1, 1)]\<rparr>), (1, \<lparr>spin = - 1, h = 0, Jn = [(0, 1)]\<rparr>)]"
  let ?md = "\<lparr>nodes = ?tbl, Js = [(0, 1, 1)], hs = []\<rparr>"
  note t = modelE_energy[OF example_reachable, of 3 1 example_source]
  from t example_evaluates obtain tbl' g'
    where s: "sweeps example_fpu (nat 3) 2 1 (Inr (?tbl, example_source)) = Inr (tbl', g')"
    by blast
  from t s have "modelE example_fpu ?md ?tbl 2 3 1 example_source =
      Inr (- (spin_at tbl' 0 * spin_at tbl' 1 * 1), tbl', g')"
    by (simp add: getJs_def geths_def)
  with s show ?thesis by auto
qed

text \<open>
  C3 as stated fails: it has \<open>modelE\<close> return an energy for every model at every positive
  temperature. With the single coupling \<open>(0, 1, 10 ^ 400)\<close>, one iteration and the
  temperature \<open>1\<close>, the first trial samples a node with \<open>E = - (10 ^ 400)\<close>; \<open>2*E\<close> is too
  large to convert to a float, and the sweep, \<open>modelE\<close> and the run raise \<open>OverflowError\<close>.
\<close>

theorem modelE_overflow_counterexample:
  "modelE example_fpu
     \<lparr>nodes = [(0, \<lparr>spin = - 1, h = 0, Jn = [(1, 10 ^ 400)]\<rparr>),
               (1, \<lparr>spin = - 1, h = 0, Jn = [(0, 10 ^ 400)]\<rparr>)],
      Js = [(0, 1, 10 ^ 400)], hs = []\<rparr>
     [(0, \<lparr>spin = - 1, h = 0, Jn = [(1, 10 ^ 400)]\<rparr>),
      (1, \<lparr>spin = - 1, h = 0, Jn = [(0, 10 ^ 400)]\<rparr>)]
     2 1 1 example_source = Inl OverflowError \<and>
   main_run example_fpu 2 [(0, 1, 10 ^ 400)] 1 1 example_source = Inl OverflowError"
proof -
  let ?tbl = "[(0::int, \<lparr>spin = - 1, h = 0, Jn = [(1, 10 ^ 400)]\<rparr>),
      (1, \<lparr>spin = - 1, h = 0, Jn = [(0, 10 ^ 400)]\<rparr>)]"
  let ?md = "\<lparr>nodes = ?tbl, Js = [(0, 1, 10 ^ 400)], hs = []\<rparr>"
  have j: "update_loop example_fpu 0 ?tbl 2 1 example_source = Inr (?tbl, example_source)"
    by (rule update_loop.simps(1))
  have u: "update example_fpu ?tbl 2 1 example_source = Inl OverflowError"
    by (rule update_error_any_trial[OF j example_big_step]) simp
  have i: "modelE_updates example_fpu 0 ?tbl 2 1 example_source = Inr (?tbl, example_source)"
    by (rule modelE_updates.simps(1))
  have me: "modelE example_fpu ?md ?tbl 2 1 1 example_source = Inl OverflowError"
    by (rule modelE_error_any_sweep[OF i u]) simp
  have "main_run example_fpu 2 [(0, 1, 10 ^ 400)] 1 1 example_source = Inl OverflowError"
    by (simp only: main_run_def example_big_model sum.case prod.case getNodes_def
        Model.simps me)
  with me show ?thesis by (rule conjI)
qed

end
